theory Spec2Isabelle
  imports Main
begin

section \<open>Status codes and faults\<close>

text \<open>
  The status codes that \<^verbatim>\<open>nodeFT.c\<close> returns (the enumeration of \<^verbatim>\<open>a4def.h\<close>,
  restricted to the members this file uses).
\<close>

datatype status = SUCCESS | CONFLICTING_PATH | NO_SUCH_PATH | ALREADY_IN_TREE | MEMORY_ERROR

text \<open>
  What a C call does when it does not return: \<open>Abort\<close> is a failed \<^verbatim>\<open>assert\<close>,
  \<open>InvalidAccess\<close> is a read or write through a pointer to a \<^verbatim>\<open>struct node\<close> that is not
  (or no longer) allocated, \<open>OutOfFuel\<close> is the recursion bound of the model of
  \<^verbatim>\<open>Node_free\<close> running out.
\<close>

datatype fault = Abort | InvalidAccess | OutOfFuel

section \<open>The Path collaborator\<close>

text \<open>
  Modelled from the spec: the Path module (\<^verbatim>\<open>path.h\<close>, \<^verbatim>\<open>path.c\<close>) is not among the
  sources. The spec says it "parses and canonicalizes path strings, exposes depth,
  shared-prefix depth, pathname string, and lexicographic comparison". A path is the list
  of its components; its depth is the number of components; the shared-prefix depth of two
  paths is the number of leading components they have in common; the pathname joins the
  components with a slash; the two comparisons are \<^verbatim>\<open>strcmp\<close> on pathnames.
\<close>

type_synonym path = "string list"

definition Path_getDepth :: "path \<Rightarrow> nat" where
  "Path_getDepth p = length p"

fun Path_getSharedPrefixDepth :: "path \<Rightarrow> path \<Rightarrow> nat" where
  "Path_getSharedPrefixDepth (x # xs) (y # ys) =
     (if x = y then Suc (Path_getSharedPrefixDepth xs ys) else 0)"
| "Path_getSharedPrefixDepth _ _ = 0"

fun Path_getPathname :: "path \<Rightarrow> string" where
  "Path_getPathname [] = []"
| "Path_getPathname [c] = c"
| "Path_getPathname (c # d # cs) = c @ CHR ''/'' # Path_getPathname (d # cs)"

text \<open>
  \<^verbatim>\<open>strcmp\<close> compares byte by byte as unsigned characters; C fixes only the sign of the
  result, which is what the model returns (\<open>-1\<close>, \<open>0\<close> or \<open>1\<close>).
\<close>

fun strcmp :: "string \<Rightarrow> string \<Rightarrow> int" where
  "strcmp [] [] = 0"
| "strcmp [] (y # ys) = -1"
| "strcmp (x # xs) [] = 1"
| "strcmp (x # xs) (y # ys) =
     (if x = y then strcmp xs ys
      else if (of_char x :: nat) < of_char y then -1 else 1)"

definition Path_comparePath :: "path \<Rightarrow> path \<Rightarrow> int" where
  "Path_comparePath p1 p2 = strcmp (Path_getPathname p1) (Path_getPathname p2)"

definition Path_compareString :: "path \<Rightarrow> string \<Rightarrow> int" where
  "Path_compareString p s = strcmp (Path_getPathname p) s"

section \<open>Nodes and the heap\<close>

text \<open>
  \<^verbatim>\<open>struct node\<close> (lines 9-26). A \<^verbatim>\<open>Node_T\<close> is the address of a cell of the heap; a
  pointer field that may be \<^verbatim>\<open>NULL\<close> is an \<open>option\<close>. Each node owns its two dynamic
  arrays and its path exclusively (\<^verbatim>\<open>DynArray_new\<close> and \<^verbatim>\<open>Path_dup\<close> in \<^verbatim>\<open>Node_new\<close>), so
  they are stored in the node by value: an array is the list of the addresses it holds,
  and \<open>None\<close> is the \<^verbatim>\<open>NULL\<close> that \<^verbatim>\<open>Node_free\<close> assigns after \<^verbatim>\<open>DynArray_free\<close>. The file
  contents are an opaque buffer pointer. A \<^verbatim>\<open>size_t\<close> is a natural number: the only
  arithmetic on one is the node count of \<^verbatim>\<open>Node_free\<close>, which counts distinct allocated
  nodes and so cannot wrap.
\<close>

type_synonym addr = nat

record node =
  isDir :: bool
  oPPath :: path
  oNParent :: "addr option"
  oDDirChildren :: "addr list option"
  oDFileChildren :: "addr list option"
  fileContent :: "addr option"
  fileSize :: nat

text \<open>
  The heap: cell \<open>a\<close> holds the node allocated at address \<open>a\<close>, or \<open>None\<close> once it has
  been freed. \<^verbatim>\<open>malloc\<close> returns the first address past the cells in use.
\<close>

type_synonym heap = "node option list"

definition lookup :: "heap \<Rightarrow> addr \<Rightarrow> node option" where
  "lookup h a = (if a < length h then h ! a else None)"

section \<open>The dynamic array collaborator\<close>

text \<open>
  Modelled from the spec: the DynArray module (\<^verbatim>\<open>dynarray.h\<close>, \<^verbatim>\<open>dynarray.c\<close>) is not
  among the sources. The spec describes "an ordered, index-addressable container
  supporting sorted insertion-at-index, binary search by comparator, removal-at-index, and
  length query". Every operation asserts that the array is not \<^verbatim>\<open>NULL\<close> and that an index
  is in range. \<^verbatim>\<open>DynArray_addAt\<close> returns 0 and changes nothing when the array cannot
  grow; whether it can is the argument \<open>ok\<close>.
\<close>

definition DynArray_getLength :: "addr list option \<Rightarrow> fault + nat" where
  "DynArray_getLength arr = (case arr of None \<Rightarrow> Inl Abort | Some xs \<Rightarrow> Inr (length xs))"

definition DynArray_get :: "addr list option \<Rightarrow> nat \<Rightarrow> fault + addr" where
  "DynArray_get arr i =
     (case arr of None \<Rightarrow> Inl Abort
      | Some xs \<Rightarrow> if i < length xs then Inr (xs ! i) else Inl Abort)"

definition DynArray_addAt :: "bool \<Rightarrow> addr list option \<Rightarrow> nat \<Rightarrow> addr \<Rightarrow> fault + addr list option" where
  "DynArray_addAt ok arr i x =
     (case arr of None \<Rightarrow> Inl Abort
      | Some xs \<Rightarrow>
          if length xs < i then Inl Abort
          else if ok then Inr (Some (take i xs @ x # drop i xs))
          else Inr None)"

definition DynArray_removeAt :: "addr list option \<Rightarrow> nat \<Rightarrow> fault + addr list" where
  "DynArray_removeAt arr i =
     (case arr of None \<Rightarrow> Inl Abort
      | Some xs \<Rightarrow> if i < length xs then Inr (take i xs @ drop (Suc i) xs) else Inl Abort)"

text \<open>
  Binary search between \<open>lo\<close> (inclusive) and \<open>hi\<close> (exclusive). The comparator is
  applied to the array element, with the key already supplied (the source passes
  \<^verbatim>\<open>Node_compareString\<close>, whose first argument is the node and whose second is the key).
  The result is the flag the C function returns and the index it stores through
  \<^verbatim>\<open>pulFound\<close>: the place of a match, or the place where the key would be inserted.
  The search starts with \<open>lo = 0\<close> and \<open>hi\<close> the length of the array, so the test that
  \<open>hi\<close> is within the array never fails; it only keeps every probe in range.
\<close>

function bsearch_loop :: "(addr \<Rightarrow> fault + int) \<Rightarrow> addr list \<Rightarrow> nat \<Rightarrow> nat \<Rightarrow> fault + (bool \<times> nat)" where
  "bsearch_loop cmp xs lo hi =
     (if lo < hi \<and> hi \<le> length xs then
        (case cmp (xs ! ((lo + hi - 1) div 2)) of
           Inl e \<Rightarrow> Inl e
         | Inr c \<Rightarrow>
             if c = 0 then Inr (True, (lo + hi - 1) div 2)
             else if c < 0 then bsearch_loop cmp xs (Suc ((lo + hi - 1) div 2)) hi
             else bsearch_loop cmp xs lo ((lo + hi - 1) div 2))
      else Inr (False, lo))"
  by pat_completeness auto
termination
  by (relation "measure (\<lambda>(cmp, xs, lo, hi). hi - lo)") auto

declare bsearch_loop.simps [simp del]

definition DynArray_bsearch :: "addr list option \<Rightarrow> (addr \<Rightarrow> fault + int) \<Rightarrow> fault + (bool \<times> nat)" where
  "DynArray_bsearch arr cmp =
     (case arr of None \<Rightarrow> Inl Abort | Some xs \<Rightarrow> bsearch_loop cmp xs 0 (length xs))"

section \<open>Comparators\<close>

text \<open>\<^verbatim>\<open>Node_compareString\<close> (lines 61-68).\<close>

definition Node_compareString :: "heap \<Rightarrow> addr \<Rightarrow> string \<Rightarrow> fault + int" where
  "Node_compareString h oNFirst pcSecond =
     (case lookup h oNFirst of
        None \<Rightarrow> Inl InvalidAccess
      | Some f \<Rightarrow> Inr (Path_compareString (oPPath f) pcSecond))"

text \<open>
  \<^verbatim>\<open>Node_compare\<close> (lines 373-384). Both tests read the flag of \<^verbatim>\<open>oNFirst\<close> twice, as
  the source does.
\<close>

definition Node_compare :: "heap \<Rightarrow> addr \<Rightarrow> addr \<Rightarrow> fault + int" where
  "Node_compare h oNFirst oNSecond =
     (case lookup h oNFirst of
        None \<Rightarrow> Inl InvalidAccess
      | Some f \<Rightarrow>
          (case lookup h oNSecond of
             None \<Rightarrow> Inl InvalidAccess
           | Some s \<Rightarrow>
               if isDir f = False \<and> isDir f = True then Inr (-1)
               else if isDir f = True \<and> isDir f = False then Inr 1
               else Inr (Path_comparePath (oPPath f) (oPPath s))))"

section \<open>Child lookup\<close>

text \<open>
  \<^verbatim>\<open>Node_hasChild\<close> (lines 290-316). The result is the returned flag, the value left in
  \<^verbatim>\<open>*pulChildID\<close> and the value left in \<^verbatim>\<open>*isDir\<close>; \<open>isDir0\<close> is what \<^verbatim>\<open>*isDir\<close> held
  before the call. Both searches store through the same \<^verbatim>\<open>pulChildID\<close>.
\<close>

definition Node_hasChild :: "heap \<Rightarrow> addr \<Rightarrow> path \<Rightarrow> bool \<Rightarrow> fault + (bool \<times> nat \<times> bool)" where
  "Node_hasChild h oNParent' p isDir0 =
     (case lookup h oNParent' of
        None \<Rightarrow> Inl InvalidAccess
      | Some par \<Rightarrow>
          (case DynArray_bsearch (oDDirChildren par)
                  (\<lambda>c. Node_compareString h c (Path_getPathname p)) of
             Inl e \<Rightarrow> Inl e
           | Inr (i, id1) \<Rightarrow>
               if i then Inr (True, id1, True)
               else
                 (case DynArray_bsearch (oDFileChildren par)
                         (\<lambda>c. Node_compareString h c (Path_getPathname p)) of
                    Inl e \<Rightarrow> Inl e
                  | Inr (j, id2) \<Rightarrow>
                      if j then Inr (True, id2, False)
                      else Inr (False, id2, isDir0))))"

section \<open>Construction\<close>

text \<open>
  What the allocations of one \<^verbatim>\<open>Node_new\<close> call do: whether \<^verbatim>\<open>malloc\<close> of the node
  succeeds, the status that \<^verbatim>\<open>Path_dup\<close> returns, whether the two \<^verbatim>\<open>DynArray_new\<close> calls
  succeed and whether the array can grow inside \<^verbatim>\<open>DynArray_addAt\<close>. \<^verbatim>\<open>Path_dup\<close> is not
  among the sources, so its status is taken as it comes: \<^verbatim>\<open>Node_new\<close> compares it with
  \<open>SUCCESS\<close> and returns it unchanged otherwise (lines 104-109).
\<close>

record allocs =
  node_ok :: bool
  path_status :: status
  dirs_ok :: bool
  files_ok :: bool
  grow_ok :: bool

text \<open>\<^verbatim>\<open>Node_addChild\<close> (lines 34-53): the status and the heap after the call.\<close>

definition Node_addChild :: "bool \<Rightarrow> heap \<Rightarrow> addr \<Rightarrow> addr \<Rightarrow> nat \<Rightarrow> bool \<Rightarrow> fault + (status \<times> heap)" where
  "Node_addChild ok h oNParent' oNChild ulIndex isDirec =
     (case lookup h oNParent' of
        None \<Rightarrow> Inl InvalidAccess
      | Some par \<Rightarrow>
          if isDirec then
            (case DynArray_addAt ok (oDDirChildren par) ulIndex oNChild of
               Inl e \<Rightarrow> Inl e
             | Inr None \<Rightarrow> Inr (MEMORY_ERROR, h)
             | Inr (Some xs) \<Rightarrow>
                 Inr (SUCCESS, h[oNParent' := Some (par\<lparr>oDDirChildren := Some xs\<rparr>)]))
          else
            (case DynArray_addAt ok (oDFileChildren par) ulIndex oNChild of
               Inl e \<Rightarrow> Inl e
             | Inr None \<Rightarrow> Inr (MEMORY_ERROR, h)
             | Inr (Some xs) \<Rightarrow>
                 Inr (SUCCESS, h[oNParent' := Some (par\<lparr>oDFileChildren := Some xs\<rparr>)])))"

text \<open>
  \<^verbatim>\<open>Node_new\<close>, lines 155-192: the node is initialised and linked into its parent. The new
  node \<^verbatim>\<open>psNew\<close> is the cell past the end of the heap; on the paths that free it again the
  heap is returned as it was. The result is the status, the value stored in
  \<^verbatim>\<open>*poNResult\<close> and the heap.
\<close>

definition Node_new_link ::
  "allocs \<Rightarrow> bool \<Rightarrow> path \<Rightarrow> addr option \<Rightarrow> nat \<Rightarrow> addr option \<Rightarrow> nat \<Rightarrow> heap
     \<Rightarrow> fault + (status \<times> addr option \<times> heap)" where
  "Node_new_link al isDirec p oNParent' ulIndex pvContents ulLength h =
     (if \<not> dirs_ok al \<or> \<not> files_ok al then Inr (MEMORY_ERROR, None, h)
      else
        (case oNParent' of
           None \<Rightarrow>
             Inr (SUCCESS, Some (length h),
                  h @ [Some \<lparr>isDir = isDirec, oPPath = p, oNParent = None,
                              oDDirChildren = Some [], oDFileChildren = Some [],
                              fileContent = (if \<not> isDirec then pvContents else None),
                              fileSize = (if \<not> isDirec then ulLength else 0)\<rparr>])
         | Some q \<Rightarrow>
             (case Node_addChild (grow_ok al) h q (length h) ulIndex isDirec of
                Inl e \<Rightarrow> Inl e
              | Inr (iStatus, h1) \<Rightarrow>
                  if iStatus \<noteq> SUCCESS then Inr (iStatus, None, h)
                  else
                    Inr (SUCCESS, Some (length h),
                         h1 @ [Some \<lparr>isDir = isDirec, oPPath = p, oNParent = Some q,
                                      oDDirChildren = Some [], oDFileChildren = Some [],
                                      fileContent = (if \<not> isDirec then pvContents else None),
                                      fileSize = (if \<not> isDirec then ulLength else 0)\<rparr>]))))"

text \<open>
  \<^verbatim>\<open>Node_new\<close> (lines 82-193), lines 96-154: allocation and validation. \<^verbatim>\<open>ulIndex\<close> and
  \<^verbatim>\<open>isDir\<close> are uninitialised locals; \<^verbatim>\<open>ulIndex\<close> is read only after \<^verbatim>\<open>Node_hasChild\<close> has
  stored into it and \<^verbatim>\<open>isDir\<close> is never read, so the values they start with (\<open>0\<close> and
  \<open>False\<close> here) do not matter.
\<close>

definition Node_new ::
  "allocs \<Rightarrow> bool \<Rightarrow> path \<Rightarrow> addr option \<Rightarrow> addr option \<Rightarrow> nat \<Rightarrow> heap
     \<Rightarrow> fault + (status \<times> addr option \<times> heap)" where
  "Node_new al isDirec p oNParent' pvContents ulLength h =
     (if \<not> node_ok al then Inr (MEMORY_ERROR, None, h)
      else if path_status al \<noteq> SUCCESS then Inr (path_status al, None, h)
      else
        (case oNParent' of
           Some q \<Rightarrow>
             (case lookup h q of
                None \<Rightarrow> Inl InvalidAccess
              | Some par \<Rightarrow>
                  if Path_getSharedPrefixDepth p (oPPath par) < Path_getDepth (oPPath par)
                  then Inr (CONFLICTING_PATH, None, h)
                  else if Path_getDepth p \<noteq> Path_getDepth (oPPath par) + 1
                  then Inr (NO_SUCH_PATH, None, h)
                  else
                    (case Node_hasChild h q p False of
                       Inl e \<Rightarrow> Inl e
                     | Inr (found, ulIndex, isDir') \<Rightarrow>
                         if found then Inr (ALREADY_IN_TREE, None, h)
                         else Node_new_link al isDirec p (Some q) ulIndex pvContents ulLength h))
         | None \<Rightarrow>
             if Path_getDepth p \<noteq> 1 then Inr (NO_SUCH_PATH, None, h)
             else Node_new_link al isDirec p None 0 pvContents ulLength h))"

section \<open>Destruction\<close>

text \<open>
  The two statements of lines 205-220: when the parent's array is not \<^verbatim>\<open>NULL\<close> and the
  binary search under \<^verbatim>\<open>Node_compare\<close> finds the node, the entry at the index found is
  removed.
\<close>

definition remove_from_dirs :: "heap \<Rightarrow> addr \<Rightarrow> addr \<Rightarrow> fault + heap" where
  "remove_from_dirs h q oNNode =
     (case lookup h q of
        None \<Rightarrow> Inl InvalidAccess
      | Some par \<Rightarrow>
          (case oDDirChildren par of
             None \<Rightarrow> Inr h
           | Some xs \<Rightarrow>
               (case DynArray_bsearch (Some xs) (\<lambda>c. Node_compare h c oNNode) of
                  Inl e \<Rightarrow> Inl e
                | Inr (found, ulIndex) \<Rightarrow>
                    if found then
                      (case DynArray_removeAt (Some xs) ulIndex of
                         Inl e \<Rightarrow> Inl e
                       | Inr ys \<Rightarrow> Inr (h[q := Some (par\<lparr>oDDirChildren := Some ys\<rparr>)]))
                    else Inr h)))"

definition remove_from_files :: "heap \<Rightarrow> addr \<Rightarrow> addr \<Rightarrow> fault + heap" where
  "remove_from_files h q oNNode =
     (case lookup h q of
        None \<Rightarrow> Inl InvalidAccess
      | Some par \<Rightarrow>
          (case oDFileChildren par of
             None \<Rightarrow> Inr h
           | Some xs \<Rightarrow>
               (case DynArray_bsearch (Some xs) (\<lambda>c. Node_compare h c oNNode) of
                  Inl e \<Rightarrow> Inl e
                | Inr (found, ulIndex) \<Rightarrow>
                    if found then
                      (case DynArray_removeAt (Some xs) ulIndex of
                         Inl e \<Rightarrow> Inl e
                       | Inr ys \<Rightarrow> Inr (h[q := Some (par\<lparr>oDFileChildren := Some ys\<rparr>)]))
                    else Inr h)))"

definition detach :: "heap \<Rightarrow> addr \<Rightarrow> fault + heap" where
  "detach h oNNode =
     (case lookup h oNNode of
        None \<Rightarrow> Inl InvalidAccess
      | Some nd \<Rightarrow>
          (case oNParent nd of
             None \<Rightarrow> Inr h
           | Some q \<Rightarrow>
               (case remove_from_dirs h q oNNode of
                  Inl e \<Rightarrow> Inl e
                | Inr h1 \<Rightarrow> remove_from_files h1 q oNNode)))"

text \<open>
  \<^verbatim>\<open>Node_free\<close> (lines 195-250). The first argument bounds the depth of the calls: every
  call and every iteration of the two loops takes one unit. \<open>free_dirs\<close> is the loop of
  lines 225-227 and \<open>free_files\<close> the loop of lines 232-235; each reads the array of the
  node again at every iteration and passes on the heap and \<^verbatim>\<open>ulCount\<close>. Between the loops
  the directory array is freed and set to \<^verbatim>\<open>NULL\<close>; at the end the node's cell is freed.
\<close>

fun Node_free :: "nat \<Rightarrow> heap \<Rightarrow> addr \<Rightarrow> fault + (heap \<times> nat)"
  and free_dirs :: "nat \<Rightarrow> heap \<Rightarrow> addr \<Rightarrow> nat \<Rightarrow> fault + (heap \<times> nat)"
  and free_files :: "nat \<Rightarrow> heap \<Rightarrow> addr \<Rightarrow> nat \<Rightarrow> fault + (heap \<times> nat)" where
  "Node_free 0 h oNNode = Inl OutOfFuel"
| "Node_free (Suc n) h oNNode =
     (case detach h oNNode of
        Inl e \<Rightarrow> Inl e
      | Inr h1 \<Rightarrow>
          (case free_dirs n h1 oNNode 0 of
             Inl e \<Rightarrow> Inl e
           | Inr (h2, c1) \<Rightarrow>
               (case lookup h2 oNNode of
                  None \<Rightarrow> Inl InvalidAccess
                | Some nd \<Rightarrow>
                    (case free_files n (h2[oNNode := Some (nd\<lparr>oDDirChildren := None\<rparr>)]) oNNode c1 of
                       Inl e \<Rightarrow> Inl e
                     | Inr (h3, c2) \<Rightarrow>
                         (case lookup h3 oNNode of
                            None \<Rightarrow> Inl InvalidAccess
                          | Some nd' \<Rightarrow> Inr (h3[oNNode := None], c2 + 1))))))"
| "free_dirs 0 h oNNode ulCount = Inl OutOfFuel"
| "free_dirs (Suc n) h oNNode ulCount =
     (case lookup h oNNode of
        None \<Rightarrow> Inl InvalidAccess
      | Some nd \<Rightarrow>
          (case DynArray_getLength (oDDirChildren nd) of
             Inl e \<Rightarrow> Inl e
           | Inr len \<Rightarrow>
               if len \<noteq> 0 then
                 (case DynArray_get (oDDirChildren nd) 0 of
                    Inl e \<Rightarrow> Inl e
                  | Inr c \<Rightarrow>
                      (case Node_free n h c of
                         Inl e \<Rightarrow> Inl e
                       | Inr (h1, k) \<Rightarrow> free_dirs n h1 oNNode (ulCount + k)))
               else Inr (h, ulCount)))"
| "free_files 0 h oNNode ulCount = Inl OutOfFuel"
| "free_files (Suc n) h oNNode ulCount =
     (case lookup h oNNode of
        None \<Rightarrow> Inl InvalidAccess
      | Some nd \<Rightarrow>
          (case DynArray_getLength (oDFileChildren nd) of
             Inl e \<Rightarrow> Inl e
           | Inr len \<Rightarrow>
               if len \<noteq> 0 then
                 (case DynArray_get (oDFileChildren nd) 0 of
                    Inl e \<Rightarrow> Inl e
                  | Inr c \<Rightarrow>
                      (case Node_free n h c of
                         Inl e \<Rightarrow> Inl e
                       | Inr (h1, k) \<Rightarrow> free_files n h1 oNNode (ulCount + k)))
               else Inr (h, ulCount)))"

section \<open>Accessors\<close>

text \<open>\<^verbatim>\<open>Node_getNumDirChildren\<close>, \<^verbatim>\<open>Node_getNumFileChildren\<close> (lines 320-330).\<close>

definition Node_getNumDirChildren :: "heap \<Rightarrow> addr \<Rightarrow> fault + nat" where
  "Node_getNumDirChildren h oNParent' =
     (case lookup h oNParent' of
        None \<Rightarrow> Inl InvalidAccess
      | Some par \<Rightarrow> DynArray_getLength (oDDirChildren par))"

definition Node_getNumFileChildren :: "heap \<Rightarrow> addr \<Rightarrow> fault + nat" where
  "Node_getNumFileChildren h oNParent' =
     (case lookup h oNParent' of
        None \<Rightarrow> Inl InvalidAccess
      | Some par \<Rightarrow> DynArray_getLength (oDFileChildren par))"

text \<open>
  \<^verbatim>\<open>Node_getChild\<close> (lines 338-364): the status and the value stored in \<^verbatim>\<open>*poNResult\<close>.
\<close>

definition Node_getChild :: "bool \<Rightarrow> heap \<Rightarrow> addr \<Rightarrow> nat \<Rightarrow> fault + (status \<times> addr option)" where
  "Node_getChild childIsDir h oNParent' ulChildID =
     (case lookup h oNParent' of
        None \<Rightarrow> Inl InvalidAccess
      | Some par \<Rightarrow>
          if childIsDir then
            (case Node_getNumDirChildren h oNParent' of
               Inl e \<Rightarrow> Inl e
             | Inr n \<Rightarrow>
                 if ulChildID \<ge> n then Inr (NO_SUCH_PATH, None)
                 else
                   (case DynArray_get (oDDirChildren par) ulChildID of
                      Inl e \<Rightarrow> Inl e
                    | Inr c \<Rightarrow> Inr (SUCCESS, Some c)))
          else
            (case Node_getNumFileChildren h oNParent' of
               Inl e \<Rightarrow> Inl e
             | Inr n \<Rightarrow>
                 if ulChildID \<ge> n then Inr (NO_SUCH_PATH, None)
                 else
                   (case DynArray_get (oDFileChildren par) ulChildID of
                      Inl e \<Rightarrow> Inl e
                    | Inr c \<Rightarrow> Inr (SUCCESS, Some c))))"

text \<open>
  \<^verbatim>\<open>Node_getFileContents\<close>, \<^verbatim>\<open>Node_getFileSize\<close> and \<^verbatim>\<open>Node_replaceFileContents\<close>
  (lines 386-417). The last returns the old buffer and the heap after the two stores.
\<close>

definition Node_getFileContents :: "heap \<Rightarrow> addr \<Rightarrow> fault + addr option" where
  "Node_getFileContents h oNNode =
     (case lookup h oNNode of None \<Rightarrow> Inl InvalidAccess | Some nd \<Rightarrow> Inr (fileContent nd))"

definition Node_getFileSize :: "heap \<Rightarrow> addr \<Rightarrow> fault + nat" where
  "Node_getFileSize h oNNode =
     (case lookup h oNNode of None \<Rightarrow> Inl InvalidAccess | Some nd \<Rightarrow> Inr (fileSize nd))"

definition Node_replaceFileContents ::
  "heap \<Rightarrow> addr \<Rightarrow> addr option \<Rightarrow> nat \<Rightarrow> fault + (addr option \<times> heap)" where
  "Node_replaceFileContents h oNNode pvNewContents ulNewLength =
     (case lookup h oNNode of
        None \<Rightarrow> Inl InvalidAccess
      | Some nd \<Rightarrow>
          Inr (fileContent nd,
               h[oNNode := Some (nd\<lparr>fileContent := pvNewContents, fileSize := ulNewLength\<rparr>)]))"

section \<open>Sortedness of a children collection\<close>

text \<open>
  The order that the spec calls the path ordering: \<^verbatim>\<open>Path_comparePath\<close> on the paths of
  two allocated nodes is negative.
\<close>

definition path_less :: "heap \<Rightarrow> addr \<Rightarrow> addr \<Rightarrow> bool" where
  "path_less h a b =
     (case lookup h a of
        None \<Rightarrow> False
      | Some x \<Rightarrow>
          (case lookup h b of
             None \<Rightarrow> False
           | Some y \<Rightarrow> Path_comparePath (oPPath x) (oPPath y) < 0))"

definition children_sorted :: "heap \<Rightarrow> addr list \<Rightarrow> bool" where
  "children_sorted h xs = sorted_wrt (path_less h) xs"

text \<open>The pathname of the node at an address (empty when no node is allocated there).\<close>

definition pathname_at :: "heap \<Rightarrow> addr \<Rightarrow> string" where
  "pathname_at h c =
     (case lookup h c of None \<Rightarrow> [] | Some nd \<Rightarrow> Path_getPathname (oPPath nd))"

text \<open>The children of a collection whose pathname is before the string \<open>s\<close>.\<close>

definition before_key :: "heap \<Rightarrow> string \<Rightarrow> addr \<Rightarrow> bool" where
  "before_key h s c =
     (case lookup h c of None \<Rightarrow> False | Some nd \<Rightarrow> Path_compareString (oPPath nd) s < 0)"

section \<open>Trees in the heap\<close>

text \<open>
  The shape of a subtree: the address of its node, the subtrees of its directory children
  and the subtrees of its file children, each in the order of the node's array.
\<close>

datatype ftree = FNode addr "ftree list" "ftree list"

fun root_of :: "ftree \<Rightarrow> addr" where
  "root_of (FNode a ds fs) = a"

fun count_nodes :: "ftree \<Rightarrow> nat" where
  "count_nodes (FNode a ds fs) =
     Suc (sum_list (map count_nodes ds) + sum_list (map count_nodes fs))"

fun addrs :: "ftree \<Rightarrow> addr list" where
  "addrs (FNode a ds fs) = a # concat (map addrs ds) @ concat (map addrs fs)"

text \<open>
  The heap \<open>h\<close> holds the tree \<open>t\<close> below the parent \<open>q\<close>: the node is allocated, its
  parent pointer is \<open>q\<close>, its two arrays hold the roots of the subtrees, both arrays are
  sorted by path, no directory child has the path of a file child, and the same holds of
  every subtree below this node.
\<close>

fun well_formed :: "heap \<Rightarrow> addr option \<Rightarrow> ftree \<Rightarrow> bool" where
  "well_formed h q (FNode a ds fs) =
     (case lookup h a of
        None \<Rightarrow> False
      | Some nd \<Rightarrow>
          oNParent nd = q
          \<and> oDDirChildren nd = Some (map root_of ds)
          \<and> oDFileChildren nd = Some (map root_of fs)
          \<and> children_sorted h (map root_of ds)
          \<and> children_sorted h (map root_of fs)
          \<and> list_all (\<lambda>d. list_all (\<lambda>f. path_less h (root_of d) (root_of f)
                                       \<or> path_less h (root_of f) (root_of d)) fs) ds
          \<and> list_all (well_formed h (Some a)) ds
          \<and> list_all (well_formed h (Some a)) fs)"

text \<open>The heap after \<^verbatim>\<open>free\<close> of the nodes at the addresses \<open>as\<close>.\<close>

definition clear :: "addr list \<Rightarrow> heap \<Rightarrow> heap" where
  "clear as h = fold (\<lambda>a g. g[a := None]) as h"

section \<open>Example trees\<close>

text \<open>
  Allocation outcomes: all succeed; \<^verbatim>\<open>malloc\<close> of the node fails; the parent's array
  cannot grow.
\<close>

definition al_ok :: allocs where
  "al_ok = \<lparr>node_ok = True, path_status = SUCCESS, dirs_ok = True, files_ok = True, grow_ok = True\<rparr>"

definition al_no_node :: allocs where
  "al_no_node = \<lparr>node_ok = False, path_status = SUCCESS, dirs_ok = True, files_ok = True, grow_ok = True\<rparr>"

definition al_no_grow :: allocs where
  "al_no_grow = \<lparr>node_ok = True, path_status = SUCCESS, dirs_ok = True, files_ok = True, grow_ok = False\<rparr>"

definition dir_node :: "path \<Rightarrow> addr option \<Rightarrow> addr list \<Rightarrow> addr list \<Rightarrow> node" where
  "dir_node p q ds fs =
     \<lparr>isDir = True, oPPath = p, oNParent = q, oDDirChildren = Some ds,
      oDFileChildren = Some fs, fileContent = None, fileSize = 0\<rparr>"

definition file_node :: "path \<Rightarrow> addr option \<Rightarrow> addr option \<Rightarrow> nat \<Rightarrow> node" where
  "file_node p q c n =
     \<lparr>isDir = False, oPPath = p, oNParent = q, oDDirChildren = Some [],
      oDFileChildren = Some [], fileContent = c, fileSize = n\<rparr>"

text \<open>The root \<^verbatim>\<open>r\<close> alone.\<close>

definition heap_r :: heap where
  "heap_r = [Some (dir_node [''r''] None [] [])]"

text \<open>The root and the directory \<^verbatim>\<open>r/a\<close>.\<close>

definition heap_ra :: heap where
  "heap_ra = [Some (dir_node [''r''] None [1] []),
              Some (dir_node [''r'', ''a''] (Some 0) [] [])]"

text \<open>The directories \<^verbatim>\<open>r/a\<close> and \<^verbatim>\<open>r/b\<close>, created in this order.\<close>

definition heap_rab :: heap where
  "heap_rab = [Some (dir_node [''r''] None [2, 1] []),
               Some (dir_node [''r'', ''a''] (Some 0) [] []),
               Some (dir_node [''r'', ''b''] (Some 0) [] [])]"

text \<open>The directories \<^verbatim>\<open>r/a\<close>, \<^verbatim>\<open>r/b\<close> and \<^verbatim>\<open>r/c\<close>, created in this order.\<close>

definition heap_rabc :: heap where
  "heap_rabc = [Some (dir_node [''r''] None [3, 2, 1] []),
                Some (dir_node [''r'', ''a''] (Some 0) [] []),
                Some (dir_node [''r'', ''b''] (Some 0) [] []),
                Some (dir_node [''r'', ''c''] (Some 0) [] [])]"

text \<open>The directory \<^verbatim>\<open>r/a\<close> and the file \<^verbatim>\<open>r/b\<close> (5 bytes at buffer 7).\<close>

definition heap_raf :: heap where
  "heap_raf = [Some (dir_node [''r''] None [1] [2]),
               Some (dir_node [''r'', ''a''] (Some 0) [] []),
               Some (file_node [''r'', ''b''] (Some 0) (Some 7) 5)]"

text \<open>The same, and then the directory \<^verbatim>\<open>r/c\<close>.\<close>

definition heap_mix :: heap where
  "heap_mix = [Some (dir_node [''r''] None [1, 3] [2]),
               Some (dir_node [''r'', ''a''] (Some 0) [] []),
               Some (file_node [''r'', ''b''] (Some 0) (Some 7) 5),
               Some (dir_node [''r'', ''c''] (Some 0) [] [])]"

text \<open>
  The scenario of the spec: the root \<^verbatim>\<open>root\<close>, the directory \<^verbatim>\<open>root/dir1\<close> and the file
  \<^verbatim>\<open>root/dir1/file1\<close> (5 bytes at buffer 7), and the shape of this tree.
\<close>

definition heap_spec :: heap where
  "heap_spec = [Some (dir_node [''root''] None [1] []),
                Some (dir_node [''root'', ''dir1''] (Some 0) [] [2]),
                Some (file_node [''root'', ''dir1'', ''file1''] (Some 1) (Some 7) 5)]"

definition tree_spec :: ftree where
  "tree_spec = FNode 0 [FNode 1 [] [FNode 2 [] []]] []"

section \<open>Basic facts\<close>

lemma lookup_update_same: "a < length h \<Longrightarrow> lookup (h[a := v]) a = v"
  by (simp add: lookup_def)

lemma lookup_update_other: "a \<noteq> b \<Longrightarrow> lookup (h[a := v]) b = lookup h b"
  by (simp add: lookup_def)

lemma lookup_Some_length: "lookup h a = Some nd \<Longrightarrow> a < length h"
  by (simp add: lookup_def split: if_splits)

lemma lookup_update:
  "lookup (h[a := v]) i = (if i = a \<and> a < length h then v else lookup h i)"
  by (auto simp: lookup_def)

lemma lookup_append_old: "x < length h \<Longrightarrow> lookup (h @ [v]) x = lookup h x"
  by (simp add: lookup_def nth_append)

lemma lookup_append_new: "lookup (h @ [v]) (length h) = v"
  by (simp add: lookup_def)

lemma heap_eqI:
  assumes "length h = length h'" and "\<And>i. lookup h i = lookup h' i"
  shows "h = h'"
proof (rule nth_equalityI[OF assms(1)])
  fix i assume "i < length h"
  with assms(2)[of i] assms(1) show "h ! i = h' ! i" by (simp add: lookup_def)
qed

lemma length_clear: "length (clear as h) = length h"
  unfolding clear_def by (induction as arbitrary: h) auto

lemma lookup_clear: "lookup (clear as h) i = (if i \<in> set as then None else lookup h i)"
  unfolding clear_def
proof (induction as arbitrary: h)
  case Nil
  show ?case by simp
next
  case (Cons a as)
  show ?case by (auto simp: Cons.IH lookup_update) (simp add: lookup_def)
qed

lemmas example_defs = al_ok_def al_no_node_def al_no_grow_def
  dir_node_def file_node_def
  heap_r_def heap_ra_def heap_rab_def heap_rabc_def heap_raf_def heap_mix_def
  heap_spec_def tree_spec_def

lemmas operation_defs = Node_new_def Node_new_link_def Node_addChild_def Node_hasChild_def
  DynArray_bsearch_def DynArray_addAt_def DynArray_get_def DynArray_getLength_def
  DynArray_removeAt_def Node_compareString_def Node_compare_def lookup_def
  Path_getDepth_def Path_comparePath_def Path_compareString_def
  detach_def remove_from_dirs_def remove_from_files_def

subsection \<open>The example trees are built by \<^verbatim>\<open>Node_new\<close>\<close>

lemma build_heap_r:
  "Node_new al_ok True [''r''] None None 0 [] = Inr (SUCCESS, Some 0, heap_r)"
  by (simp add: example_defs operation_defs)

lemma build_heap_ra:
  "Node_new al_ok True [''r'', ''a''] (Some 0) None 0 heap_r = Inr (SUCCESS, Some 1, heap_ra)"
  by (simp add: example_defs operation_defs bsearch_loop.simps)

lemma build_heap_rab:
  "Node_new al_ok True [''r'', ''b''] (Some 0) None 0 heap_ra = Inr (SUCCESS, Some 2, heap_rab)"
  by (simp add: example_defs operation_defs bsearch_loop.simps)

lemma build_heap_rabc:
  "Node_new al_ok True [''r'', ''c''] (Some 0) None 0 heap_rab = Inr (SUCCESS, Some 3, heap_rabc)"
  by (simp add: example_defs operation_defs bsearch_loop.simps)

lemma build_heap_raf:
  "Node_new al_ok False [''r'', ''b''] (Some 0) (Some 7) 5 heap_ra
     = Inr (SUCCESS, Some 2, heap_raf)"
  by (simp add: example_defs operation_defs bsearch_loop.simps)

lemma build_heap_mix:
  "Node_new al_ok True [''r'', ''c''] (Some 0) None 0 heap_raf = Inr (SUCCESS, Some 3, heap_mix)"
  by (simp add: example_defs operation_defs bsearch_loop.simps)

text \<open>The scenario of the spec, step by step.\<close>

lemma build_heap_spec:
  "Node_new al_ok True [''root''] None None 0 [] = Inr (SUCCESS, Some 0, [Some (dir_node [''root''] None [] [])])"
  "Node_new al_ok True [''root'', ''dir1''] (Some 0) None 0 [Some (dir_node [''root''] None [] [])]
     = Inr (SUCCESS, Some 1, [Some (dir_node [''root''] None [1] []),
                              Some (dir_node [''root'', ''dir1''] (Some 0) [] [])])"
  "Node_new al_ok False [''root'', ''dir1'', ''file1''] (Some 1) (Some 7) 5
       [Some (dir_node [''root''] None [1] []),
        Some (dir_node [''root'', ''dir1''] (Some 0) [] [])]
     = Inr (SUCCESS, Some 2, heap_spec)"
  by (simp_all add: example_defs operation_defs bsearch_loop.simps)

section \<open>Rejected constructions\<close>

lemma Node_addChild_status:
  "Node_addChild ok h q c i d = Inr (st, h1) \<Longrightarrow> st = SUCCESS \<or> (st = MEMORY_ERROR \<and> h1 = h)"
  by (auto simp: Node_addChild_def split: option.splits sum.splits if_splits)

lemma Node_new_link_failure:
  "Node_new_link al d p q i c n h = Inr (st, res, h') \<Longrightarrow> st \<noteq> SUCCESS
     \<Longrightarrow> res = None \<and> h' = h \<and> st = MEMORY_ERROR"
  by (auto simp: Node_new_link_def split: option.splits sum.splits if_splits
      dest: Node_addChild_status)

lemma Node_new_failure:
  "Node_new al d p q c n h = Inr (st, res, h') \<Longrightarrow> st \<noteq> SUCCESS \<Longrightarrow> res = None \<and> h' = h"
  by (auto simp: Node_new_def split: option.splits sum.splits if_splits
      dest: Node_new_link_failure)

text \<open>
  C4: when \<^verbatim>\<open>Node_new\<close> returns a status other than \<open>SUCCESS\<close>, the heap is the heap
  before the call; in particular the parent's directory children and file children are
  the collections they were.
\<close>

theorem Node_new_failure_leaves_parent:
  assumes "Node_new al isDirec p (Some q) c n h = Inr (st, res, h')"
    and "st \<noteq> SUCCESS"
  shows "h' = h
     \<and> map_option oDDirChildren (lookup h' q) = map_option oDDirChildren (lookup h q)
     \<and> map_option oDFileChildren (lookup h' q) = map_option oDFileChildren (lookup h q)"
  using Node_new_failure[OF assms] by simp

theorem Node_new_failure_leaves_parent_witness:
  "Node_new al_no_grow True [''r'', ''d''] (Some 0) None 0 heap_mix
     = Inr (MEMORY_ERROR, None, heap_mix)
   \<and> MEMORY_ERROR \<noteq> SUCCESS
   \<and> map_option oDDirChildren (lookup heap_mix 0) = Some (Some [1, 3])
   \<and> map_option oDFileChildren (lookup heap_mix 0) = Some (Some [2])"
proof -
  have run: "Node_new al_no_grow True [''r'', ''d''] (Some 0) None 0 heap_mix
               = Inr (MEMORY_ERROR, None, heap_mix)"
    by (simp add: example_defs operation_defs bsearch_loop.simps)
  have "MEMORY_ERROR \<noteq> SUCCESS" by simp
  from Node_new_failure_leaves_parent[OF run this] run show ?thesis
    by (simp add: heap_mix_def dir_node_def lookup_def)
qed

text \<open>
  C9: when \<^verbatim>\<open>Node_new\<close> returns a status other than \<open>SUCCESS\<close>, the value it has stored
  in \<^verbatim>\<open>*poNResult\<close> is \<^verbatim>\<open>NULL\<close>.
\<close>

theorem Node_new_failure_result_NULL:
  assumes "Node_new al isDirec p oq c n h = Inr (st, res, h')"
    and "st \<noteq> SUCCESS"
  shows "res = None"
  using Node_new_failure[OF assms] by simp

theorem Node_new_failure_result_NULL_witness:
  "\<exists>res h'. Node_new al_ok True [''r'', ''a''] (Some 0) (Some 9) 4 heap_mix
               = Inr (ALREADY_IN_TREE, res, h')
     \<and> ALREADY_IN_TREE \<noteq> SUCCESS \<and> res = None"
proof -
  obtain res h' where run: "Node_new al_ok True [''r'', ''a''] (Some 0) (Some 9) 4 heap_mix
                              = Inr (ALREADY_IN_TREE, res, h')"
    by (simp add: example_defs operation_defs bsearch_loop.simps)
  have ne: "ALREADY_IN_TREE \<noteq> SUCCESS" by simp
  from Node_new_failure_result_NULL[OF run ne] run ne show ?thesis by blast
qed

section \<open>The order of the checks of \<^verbatim>\<open>Node_new\<close>\<close>

text \<open>
  C5 as stated fails: with a parent that is not an ancestor of the new path, \<^verbatim>\<open>Node_new\<close>
  returns \<open>MEMORY_ERROR\<close> when \<^verbatim>\<open>malloc\<close> of the node fails, since the allocation comes
  before the ancestry check.
\<close>

theorem Node_new_conflicting_counterexample:
  "lookup heap_r 0 = Some (dir_node [''r''] None [] [])
   \<and> Path_getSharedPrefixDepth [''x'', ''y''] [''r''] < Path_getDepth [''r'']
   \<and> Node_new al_no_node True [''x'', ''y''] (Some 0) None 0 heap_r
       = Inr (MEMORY_ERROR, None, heap_r)"
  by (simp add: example_defs operation_defs)

text \<open>
  C5, amended: when \<^verbatim>\<open>malloc\<close> of the node succeeds and \<^verbatim>\<open>Path_dup\<close> returns \<open>SUCCESS\<close>, a
  call with an allocated parent whose shared-prefix depth with the new path is less than
  the parent's depth returns \<open>CONFLICTING_PATH\<close>, stores \<^verbatim>\<open>NULL\<close> and leaves the heap as it
  was, whatever the depth of the new path and the children of the parent are.
\<close>

theorem Node_new_conflicting_first:
  assumes "lookup h q = Some par"
    and "node_ok al" and "path_status al = SUCCESS"
    and "Path_getSharedPrefixDepth p (oPPath par) < Path_getDepth (oPPath par)"
  shows "Node_new al isDirec p (Some q) c n h = Inr (CONFLICTING_PATH, None, h)"
  using assms by (simp add: Node_new_def)

text \<open>
  The witness: the parent is \<^verbatim>\<open>r/a\<close> and the new path is \<^verbatim>\<open>r\<close>, whose depth is not
  one more than the parent's either.
\<close>

theorem Node_new_conflicting_first_witness:
  "lookup heap_mix 1 = Some (dir_node [''r'', ''a''] (Some 0) [] [])
   \<and> node_ok al_ok \<and> path_status al_ok = SUCCESS
   \<and> Path_getSharedPrefixDepth [''r''] [''r'', ''a''] < Path_getDepth [''r'', ''a'']
   \<and> Path_getDepth [''r''] \<noteq> Path_getDepth [''r'', ''a''] + 1
   \<and> Node_new al_ok True [''r''] (Some 1) None 0 heap_mix
       = Inr (CONFLICTING_PATH, None, heap_mix)"
proof -
  have l: "lookup heap_mix 1 = Some (dir_node [''r'', ''a''] (Some 0) [] [])"
    by (simp add: heap_mix_def lookup_def)
  have s: "Path_getSharedPrefixDepth [''r''] (oPPath (dir_node [''r'', ''a''] (Some 0) [] []))
             < Path_getDepth (oPPath (dir_node [''r'', ''a''] (Some 0) [] []))"
    by (simp add: dir_node_def Path_getDepth_def)
  have a: "node_ok al_ok" "path_status al_ok = SUCCESS" by (simp_all add: al_ok_def)
  from Node_new_conflicting_first[OF l a s, of True None 0] l a s show ?thesis
    by (simp add: dir_node_def Path_getDepth_def)
qed

text \<open>
  When \<^verbatim>\<open>malloc\<close> succeeds and \<^verbatim>\<open>Path_dup\<close> does not return \<open>SUCCESS\<close>, \<^verbatim>\<open>Node_new\<close> returns
  the status of \<^verbatim>\<open>Path_dup\<close>, stores \<^verbatim>\<open>NULL\<close> and leaves the heap as it was.
\<close>

lemma Node_new_Path_dup_status:
  "node_ok al \<Longrightarrow> path_status al \<noteq> SUCCESS
     \<Longrightarrow> Node_new al d p oq c n h = Inr (path_status al, None, h)"
  by (simp add: Node_new_def)

lemma Node_new_link_not_NO_SUCH_PATH:
  "Node_new_link al d p q i c n h \<noteq> Inr (NO_SUCH_PATH, res, h')"
  using Node_new_link_failure[of al d p q i c n h NO_SUCH_PATH res h'] by auto

lemma Node_new_NO_SUCH_PATH_absent:
  assumes "node_ok al" and "path_status al = SUCCESS"
  shows "(\<exists>res h'. Node_new al d p None c n h = Inr (NO_SUCH_PATH, res, h'))
     \<longleftrightarrow> Path_getDepth p \<noteq> 1"
  using assms by (auto simp: Node_new_def Node_new_link_not_NO_SUCH_PATH)

lemma Node_new_NO_SUCH_PATH_dangling:
  "node_ok al \<Longrightarrow> path_status al = SUCCESS \<Longrightarrow> lookup h q = None
     \<Longrightarrow> Node_new al d p (Some q) c n h \<noteq> Inr (NO_SUCH_PATH, res, h')"
  by (simp add: Node_new_def)

lemma Node_new_NO_SUCH_PATH_present:
  assumes ok: "node_ok al" "path_status al = SUCCESS" and "lookup h q = Some par"
  shows "(\<exists>res h'. Node_new al d p (Some q) c n h = Inr (NO_SUCH_PATH, res, h'))
     \<longleftrightarrow> \<not> Path_getSharedPrefixDepth p (oPPath par) < Path_getDepth (oPPath par)
        \<and> Path_getDepth p \<noteq> Path_getDepth (oPPath par) + 1"
proof (cases "Path_getSharedPrefixDepth p (oPPath par) < Path_getDepth (oPPath par)")
  case True
  with ok assms(3) show ?thesis by (simp add: Node_new_def)
next
  case anc: False
  show ?thesis
  proof (cases "Path_getDepth p \<noteq> Path_getDepth (oPPath par) + 1")
    case True
    with ok anc assms(3) show ?thesis by (simp add: Node_new_def)
  next
    case False
    have "Node_new al d p (Some q) c n h \<noteq> Inr (NO_SUCH_PATH, res, h')" for res h'
    proof (cases "Node_hasChild h q p False")
      case (Inl e)
      with ok anc False assms(3) show ?thesis by (simp add: Node_new_def)
    next
      case (Inr r)
      obtain found i b where "r = (found, i, b)" by (cases r) auto
      with Inr ok anc False assms(3) show ?thesis
        by (simp add: Node_new_def Node_new_link_not_NO_SUCH_PATH)
    qed
    with False show ?thesis by simp
  qed
qed

text \<open>
  C6 as stated fails: without a parent and with a path of depth 2, \<^verbatim>\<open>Node_new\<close> returns
  \<open>MEMORY_ERROR\<close> when \<^verbatim>\<open>malloc\<close> of the node fails, since the allocation comes before
  the depth check.
\<close>

theorem Node_new_no_such_path_counterexample:
  "Path_getDepth [''r'', ''a''] \<noteq> 1
   \<and> Node_new al_no_node True [''r'', ''a''] None None 0 [] = Inr (MEMORY_ERROR, None, [])"
  by (simp add: example_defs operation_defs)

text \<open>
  C6, amended: when \<^verbatim>\<open>malloc\<close> of the node succeeds and \<^verbatim>\<open>Path_dup\<close> returns \<open>SUCCESS\<close>,
  \<^verbatim>\<open>Node_new\<close> returns \<open>NO_SUCH_PATH\<close> exactly when the depths do not fit: there is no
  parent and the depth of the new path is not 1, or the parent is an allocated node, the
  shared-prefix depth is not less than the parent's depth, and the depth of the new path
  is not the parent's depth plus one.
\<close>

theorem Node_new_no_such_path_iff:
  assumes "node_ok al" and "path_status al = SUCCESS"
  shows "(\<exists>res h'. Node_new al isDirec p oq c n h = Inr (NO_SUCH_PATH, res, h'))
   \<longleftrightarrow>
   (case oq of
      None \<Rightarrow> Path_getDepth p \<noteq> 1
    | Some q \<Rightarrow>
        (case lookup h q of
           None \<Rightarrow> False
         | Some par \<Rightarrow>
             \<not> Path_getSharedPrefixDepth p (oPPath par) < Path_getDepth (oPPath par)
             \<and> Path_getDepth p \<noteq> Path_getDepth (oPPath par) + 1))"
proof (cases oq)
  case None
  then show ?thesis using Node_new_NO_SUCH_PATH_absent[OF assms, of isDirec p c n h] by simp
next
  case (Some q)
  show ?thesis
  proof (cases "lookup h q")
    case None
    with Some show ?thesis using Node_new_NO_SUCH_PATH_dangling[OF assms None] by simp
  next
    case (Some par)
    with \<open>oq = Some q\<close> show ?thesis
      using Node_new_NO_SUCH_PATH_present[OF assms Some, of isDirec p c n] by simp
  qed
qed

text \<open>
  The witness: under \<^verbatim>\<open>r\<close> (depth 1) the path \<^verbatim>\<open>r/a/f\<close> has depth 3 and is rejected with
  \<open>NO_SUCH_PATH\<close>; the path \<^verbatim>\<open>r/d\<close> has depth 2 and is not.
\<close>

theorem Node_new_no_such_path_iff_witness:
  "node_ok al_ok \<and> path_status al_ok = SUCCESS
   \<and> lookup heap_mix 0 = Some (dir_node [''r''] None [1, 3] [2])
   \<and> \<not> Path_getSharedPrefixDepth [''r'', ''a'', ''f''] [''r''] < Path_getDepth [''r'']
   \<and> Path_getDepth [''r'', ''a'', ''f''] \<noteq> Path_getDepth [''r''] + 1
   \<and> (\<exists>res h'. Node_new al_ok False [''r'', ''a'', ''f''] (Some 0) None 0 heap_mix
                = Inr (NO_SUCH_PATH, res, h'))
   \<and> Path_getDepth [''r'', ''d''] = Path_getDepth [''r''] + 1
   \<and> \<not> (\<exists>res h'. Node_new al_ok False [''r'', ''d''] (Some 0) None 0 heap_mix
                = Inr (NO_SUCH_PATH, res, h'))"
proof -
  have a: "node_ok al_ok" "path_status al_ok = SUCCESS" by (simp_all add: al_ok_def)
  have l: "lookup heap_mix 0 = Some (dir_node [''r''] None [1, 3] [2])"
    by (simp add: heap_mix_def lookup_def)
  from Node_new_no_such_path_iff[OF a, of False "[''r'', ''a'', ''f'']" "Some 0" None 0 heap_mix]
    Node_new_no_such_path_iff[OF a, of False "[''r'', ''d'']" "Some 0" None 0 heap_mix] a l
  show ?thesis by (simp add: dir_node_def Path_getDepth_def)
qed

section \<open>Accessors and the replacement of file contents\<close>

text \<open>
  C7: \<^verbatim>\<open>Node_replaceFileContents\<close> on an allocated node returns the buffer the node held
  (the one \<^verbatim>\<open>Node_getFileContents\<close> returned before the call); afterwards
  \<^verbatim>\<open>Node_getFileContents\<close> and \<^verbatim>\<open>Node_getFileSize\<close> return the new buffer and the new
  length; the other fields of the node, and every other node, are unchanged.
\<close>

theorem Node_replaceFileContents_swaps:
  assumes "lookup h a = Some nd"
  shows "\<exists>h' nd'. Node_replaceFileContents h a c n = Inr (fileContent nd, h')
     \<and> Node_getFileContents h a = Inr (fileContent nd)
     \<and> Node_getFileContents h' a = Inr c
     \<and> Node_getFileSize h' a = Inr n
     \<and> lookup h' a = Some nd'
     \<and> isDir nd' = isDir nd \<and> oPPath nd' = oPPath nd \<and> oNParent nd' = oNParent nd
     \<and> oDDirChildren nd' = oDDirChildren nd \<and> oDFileChildren nd' = oDFileChildren nd
     \<and> (\<forall>b. b \<noteq> a \<longrightarrow> lookup h' b = lookup h b)"
  using assms lookup_Some_length[OF assms]
  by (simp add: Node_replaceFileContents_def Node_getFileContents_def Node_getFileSize_def
      lookup_update_same lookup_update_other)

theorem Node_replaceFileContents_swaps_witness:
  "lookup heap_mix 2 = Some (file_node [''r'', ''b''] (Some 0) (Some 7) 5)
   \<and> (\<exists>h'. Node_replaceFileContents heap_mix 2 (Some 8) 3 = Inr (Some 7, h')
        \<and> Node_getFileContents h' 2 = Inr (Some 8)
        \<and> Node_getFileSize h' 2 = Inr 3
        \<and> lookup h' 0 = lookup heap_mix 0)"
proof -
  have l: "lookup heap_mix 2 = Some (file_node [''r'', ''b''] (Some 0) (Some 7) 5)"
    by (simp add: heap_mix_def lookup_def)
  from Node_replaceFileContents_swaps[OF l, of "Some 8" 3] l show ?thesis
    by (auto simp: file_node_def)
qed

text \<open>
  C8: \<^verbatim>\<open>Node_getChild\<close> on an allocated parent, with the selected collection (directory
  children when \<open>wantDir\<close>, file children otherwise) holding \<open>xs\<close>: an index that is at
  least the length of \<open>xs\<close> gives \<open>NO_SUCH_PATH\<close> and \<^verbatim>\<open>NULL\<close>; any other index gives
  \<open>SUCCESS\<close> and the node at that index of \<open>xs\<close>.
\<close>

theorem Node_getChild_bounds:
  assumes "lookup h q = Some par"
    and "(if wantDir then oDDirChildren par else oDFileChildren par) = Some xs"
  shows "Node_getChild wantDir h q i =
           (if i \<ge> length xs then Inr (NO_SUCH_PATH, None) else Inr (SUCCESS, Some (xs ! i)))"
  using assms
  by (auto simp: Node_getChild_def Node_getNumDirChildren_def Node_getNumFileChildren_def
      DynArray_getLength_def DynArray_get_def split: if_splits)

theorem Node_getChild_bounds_witness:
  "lookup heap_mix 0 = Some (dir_node [''r''] None [1, 3] [2])
   \<and> Node_getChild True heap_mix 0 1 = Inr (SUCCESS, Some 3)
   \<and> Node_getChild True heap_mix 0 2 = Inr (NO_SUCH_PATH, None)
   \<and> Node_getChild False heap_mix 0 0 = Inr (SUCCESS, Some 2)
   \<and> Node_getChild False heap_mix 0 1 = Inr (NO_SUCH_PATH, None)"
proof -
  have l: "lookup heap_mix 0 = Some (dir_node [''r''] None [1, 3] [2])"
    by (simp add: heap_mix_def lookup_def)
  have d: "(if True then oDDirChildren (dir_node [''r''] None [1, 3] [2])
            else oDFileChildren (dir_node [''r''] None [1, 3] [2])) = Some [1, 3]"
    by (simp add: dir_node_def)
  have f: "(if False then oDDirChildren (dir_node [''r''] None [1, 3] [2])
            else oDFileChildren (dir_node [''r''] None [1, 3] [2])) = Some [2]"
    by (simp add: dir_node_def)
  from Node_getChild_bounds[OF l d, of 1] Node_getChild_bounds[OF l d, of 2]
    Node_getChild_bounds[OF l f, of 0] Node_getChild_bounds[OF l f, of 1] l
  show ?thesis by simp
qed

section \<open>The node comparator\<close>

text \<open>
  Both flag tests of \<^verbatim>\<open>Node_compare\<close> compare the flag of the first node with two
  different constants, so neither branch is ever taken: on allocated nodes the result is
  the comparison of the two paths.
\<close>

lemma Node_compare_paths:
  "lookup h a = Some x \<Longrightarrow> lookup h b = Some y
     \<Longrightarrow> Node_compare h a b = Inr (Path_comparePath (oPPath x) (oPPath y))"
  by (simp add: Node_compare_def)

text \<open>
  C2, evaluated: in the tree with the directories \<^verbatim>\<open>r/a\<close> and \<^verbatim>\<open>r/c\<close> and the file
  \<^verbatim>\<open>r/b\<close>, the file compared with a directory gives 1 for \<^verbatim>\<open>r/a\<close> and -1 for \<^verbatim>\<open>r/c\<close>:
  the flags differ in the same way in both pairs and the results differ.
\<close>

theorem Node_compare_ignores_flags:
  "map_option isDir (lookup heap_mix 2) = Some False
   \<and> map_option isDir (lookup heap_mix 1) = Some True
   \<and> map_option isDir (lookup heap_mix 3) = Some True
   \<and> Node_compare heap_mix 2 1 = Inr 1
   \<and> Node_compare heap_mix 2 3 = Inr (-1)"
  by (simp add: example_defs operation_defs)

section \<open>Binary search\<close>

subsection \<open>The order of \<^verbatim>\<open>strcmp\<close>\<close>

text \<open>The model of \<^verbatim>\<open>strcmp\<close> is a strict linear order on strings.\<close>

lemma strcmp_eq_0_iff: "strcmp a b = 0 \<longleftrightarrow> a = b"
  by (induction a b rule: strcmp.induct) auto

lemma strcmp_refl: "strcmp a a = 0"
  by (simp add: strcmp_eq_0_iff)

lemma strcmp_antisym: "strcmp a b < 0 \<longleftrightarrow> 0 < strcmp b a"
  by (induction a b rule: strcmp.induct) (auto simp: not_less le_less)

lemma strcmp_trans: "strcmp a b < 0 \<Longrightarrow> strcmp b c < 0 \<Longrightarrow> strcmp a c < 0"
proof (induction a b arbitrary: c rule: strcmp.induct)
  case 1
  then show ?case by simp
next
  case (2 y ys)
  then show ?case by (cases c) auto
next
  case (3 x xs)
  then show ?case by simp
next
  case (4 x xs y ys)
  show ?case
  proof (cases c)
    case Nil
    with 4 show ?thesis by simp
  next
    case (Cons z zs)
    with 4 show ?thesis
      by (auto split: if_splits)
  qed
qed

subsection \<open>The search loop\<close>

lemma bsearch_loop_total:
  assumes "\<forall>c\<in>set xs. \<exists>v. cmp c = Inr v"
  shows "\<exists>found i. bsearch_loop cmp xs lo hi = Inr (found, i) \<and> lo \<le> i
           \<and> (found \<longrightarrow> i < hi \<and> hi \<le> length xs \<and> cmp (xs ! i) = Inr 0)
           \<and> (lo \<le> hi \<longrightarrow> i \<le> hi)"
  using assms
proof (induction cmp xs lo hi rule: bsearch_loop.induct)
  case (1 cmp xs lo hi)
  show ?case
  proof (cases "lo < hi \<and> hi \<le> length xs")
    case False
    then show ?thesis by (subst bsearch_loop.simps) auto
  next
    case True
    define mid where "mid = (lo + hi - 1) div 2"
    have m: "lo \<le> mid" "mid < hi" using True by (auto simp: mid_def)
    then have "xs ! mid \<in> set xs" using True by simp
    with 1(3) obtain v where v: "cmp (xs ! mid) = Inr v" by blast
    consider "v = 0" | "v < 0" | "v > 0" by linarith
    then show ?thesis
    proof cases
      case 1
      then show ?thesis using True v m by (subst bsearch_loop.simps) (auto simp: mid_def)
    next
      case 2
      from "1.IH"(1)[OF True v[unfolded mid_def] _ _ "1.prems"] 2
      obtain found i where "bsearch_loop cmp xs (Suc mid) hi = Inr (found, i)" "Suc mid \<le> i"
        "found \<longrightarrow> i < hi \<and> hi \<le> length xs \<and> cmp (xs ! i) = Inr 0" "Suc mid \<le> hi \<longrightarrow> i \<le> hi"
        by (auto simp: mid_def)
      then show ?thesis using True v m 2 by (subst bsearch_loop.simps) (auto simp: mid_def)
    next
      case 3
      from "1.IH"(2)[OF True v[unfolded mid_def] _ _ "1.prems"] 3
      obtain found i where "bsearch_loop cmp xs lo mid = Inr (found, i)" "lo \<le> i"
        "found \<longrightarrow> i < mid \<and> mid \<le> length xs \<and> cmp (xs ! i) = Inr 0" "lo \<le> mid \<longrightarrow> i \<le> mid"
        by (auto simp: mid_def)
      then show ?thesis using True v m 3 by (subst bsearch_loop.simps) (auto simp: mid_def)
    qed
  qed
qed

lemma bsearch_loop_sorted:
  assumes "\<forall>c\<in>set xs. cmp c = Inr (f c)"
    and "\<forall>i j. i < j \<and> j < length xs \<longrightarrow> f (xs ! j) \<le> 0 \<longrightarrow> f (xs ! i) < 0"
    and "lo \<le> hi" and "hi \<le> length xs"
    and "\<forall>k<lo. f (xs ! k) < 0"
    and "\<forall>k. hi \<le> k \<and> k < length xs \<longrightarrow> 0 < f (xs ! k)"
  shows "\<exists>found i. bsearch_loop cmp xs lo hi = Inr (found, i) \<and> i \<le> length xs
           \<and> (\<forall>k<i. f (xs ! k) < 0)
           \<and> (if found then i < length xs \<and> f (xs ! i) = 0
               else (\<forall>k. i \<le> k \<and> k < length xs \<longrightarrow> 0 < f (xs ! k)))"
  using assms
proof (induction cmp xs lo hi rule: bsearch_loop.induct)
  case (1 cmp xs lo hi)
  show ?case
  proof (cases "lo < hi")
    case False
    with 1(5) have "lo = hi" by simp
    with 1 False show ?thesis by (subst bsearch_loop.simps) auto
  next
    case True
    let ?m = "(lo + hi - 1) div 2"
    define mid where "mid = ?m"
    have m: "lo \<le> mid" "mid < hi" "mid < length xs" using True 1(6) by (auto simp: mid_def)
    then have "xs ! mid \<in> set xs" by simp
    with 1(3) have v: "cmp (xs ! mid) = Inr (f (xs ! mid))" by blast
    have cond: "lo < hi \<and> hi \<le> length xs" using True 1(6) by simp
    consider "f (xs ! mid) = 0" | "f (xs ! mid) < 0" | "f (xs ! mid) > 0" by linarith
    then show ?thesis
    proof cases
      case 1
      have "\<forall>k<mid. f (xs ! k) < 0" using "1.prems"(2) m 1 by auto
      then show ?thesis using cond v m 1 by (subst bsearch_loop.simps) (auto simp: mid_def)
    next
      case 2
      have below: "\<forall>k<Suc mid. f (xs ! k) < 0"
      proof (intro allI impI)
        fix k assume "k < Suc mid"
        then consider "k = mid" | "k < mid" by linarith
        then show "f (xs ! k) < 0" using 2 "1.prems"(2) m by cases auto
      qed
      have ne: "f (xs ! ?m) \<noteq> 0" and lt: "f (xs ! ?m) < 0" using 2 by (simp_all add: mid_def)
      from "1.IH"(1)[OF cond v[unfolded mid_def] ne lt "1.prems"(1,2) _ "1.prems"(4) _ "1.prems"(6)] below m
      have "\<exists>found i. bsearch_loop cmp xs (Suc mid) hi = Inr (found, i) \<and> i \<le> length xs
           \<and> (\<forall>k<i. f (xs ! k) < 0)
           \<and> (if found then i < length xs \<and> f (xs ! i) = 0
               else (\<forall>k. i \<le> k \<and> k < length xs \<longrightarrow> 0 < f (xs ! k)))"
        by (simp add: mid_def)
      then show ?thesis using cond v 2 by (subst bsearch_loop.simps) (simp add: mid_def)
    next
      case 3
      have above: "\<forall>k. mid \<le> k \<and> k < length xs \<longrightarrow> 0 < f (xs ! k)"
      proof (intro allI impI)
        fix k assume k: "mid \<le> k \<and> k < length xs"
        then consider "k = mid" | "mid < k" by linarith
        then show "0 < f (xs ! k)"
        proof cases
          case 1 then show ?thesis using 3 by simp
        next
          case 2
          with "1.prems"(2) k have "f (xs ! k) \<le> 0 \<longrightarrow> f (xs ! mid) < 0" by blast
          with 3 show ?thesis by linarith
        qed
      qed
      have ne: "f (xs ! ?m) \<noteq> 0" and nlt: "\<not> f (xs ! ?m) < 0" using 3 by (simp_all add: mid_def)
      from "1.IH"(2)[OF cond v[unfolded mid_def] ne nlt "1.prems"(1,2) _ _ "1.prems"(5)] above m
      have "\<exists>found i. bsearch_loop cmp xs lo mid = Inr (found, i) \<and> i \<le> length xs
           \<and> (\<forall>k<i. f (xs ! k) < 0)
           \<and> (if found then i < length xs \<and> f (xs ! i) = 0
               else (\<forall>k. i \<le> k \<and> k < length xs \<longrightarrow> 0 < f (xs ! k)))"
        by (simp add: mid_def)
      then show ?thesis using cond v 3 by (subst bsearch_loop.simps) (simp add: mid_def)
    qed
  qed
qed

lemma length_filter_split:
  assumes "j \<le> length xs" and "\<forall>k<j. P (xs ! k)"
    and "\<forall>k. j \<le> k \<and> k < length xs \<longrightarrow> \<not> P (xs ! k)"
  shows "length (filter P xs) = j"
proof -
  have a: "filter P (take j xs) = take j xs"
    using assms by (auto simp: filter_id_conv in_set_conv_nth)
  have b: "filter P (drop j xs) = []"
    using assms by (auto simp: filter_empty_conv in_set_conv_nth)
  have "filter P xs = filter P (take j xs @ drop j xs)" by simp
  also have "\<dots> = take j xs" unfolding filter_append a b by simp
  finally show ?thesis using assms(1) by simp
qed

subsection \<open>What the comparisons read\<close>

lemma path_less_cong:
  assumes "map_option oPPath (lookup h' x) = map_option oPPath (lookup h x)"
    and "map_option oPPath (lookup h' y) = map_option oPPath (lookup h y)"
  shows "path_less h' x y = path_less h x y"
  using assms by (auto simp: path_less_def split: option.splits)

lemma children_sorted_cong:
  assumes "\<forall>x\<in>set xs. map_option oPPath (lookup h' x) = map_option oPPath (lookup h x)"
  shows "children_sorted h' xs = children_sorted h xs"
  unfolding children_sorted_def
  using assms
proof (induction xs)
  case Nil
  show ?case by simp
next
  case (Cons x xs)
  then show ?case by (auto simp: path_less_cong[of h' _ h])
qed

lemma Node_compare_cong:
  assumes "map_option oPPath (lookup h' x) = map_option oPPath (lookup h x)"
    and "map_option oPPath (lookup h' y) = map_option oPPath (lookup h y)"
  shows "Node_compare h' x y = Node_compare h x y"
  using assms
  by (cases "lookup h x"; cases "lookup h y"; cases "lookup h' x"; cases "lookup h' y")
    (auto simp: Node_compare_def)

lemma Node_compare_live:
  "lookup h x \<noteq> None \<Longrightarrow> lookup h y \<noteq> None
     \<Longrightarrow> Node_compare h x y = Inr (strcmp (pathname_at h x) (pathname_at h y))"
  by (auto simp: Node_compare_def pathname_at_def Path_comparePath_def)

lemma path_less_live:
  "path_less h x y \<longleftrightarrow>
     lookup h x \<noteq> None \<and> lookup h y \<noteq> None
     \<and> strcmp (pathname_at h x) (pathname_at h y) < 0"
  by (auto simp: path_less_def pathname_at_def Path_comparePath_def split: option.splits)

subsection \<open>Searching a sorted collection\<close>

lemma sorted_key_mono:
  assumes "children_sorted h xs"
  shows "\<forall>i j. i < j \<and> j < length xs \<longrightarrow> strcmp (pathname_at h (xs ! j)) s \<le> 0
           \<longrightarrow> strcmp (pathname_at h (xs ! i)) s < 0"
proof (intro allI impI)
  fix i j assume ij: "i < j \<and> j < length xs" and le: "strcmp (pathname_at h (xs ! j)) s \<le> 0"
  from assms ij have "path_less h (xs ! i) (xs ! j)"
    by (simp add: children_sorted_def sorted_wrt_iff_nth_less)
  then have lt: "strcmp (pathname_at h (xs ! i)) (pathname_at h (xs ! j)) < 0"
    by (simp add: path_less_live)
  show "strcmp (pathname_at h (xs ! i)) s < 0"
  proof (cases "strcmp (pathname_at h (xs ! j)) s = 0")
    case True
    then have "pathname_at h (xs ! j) = s" by (simp add: strcmp_eq_0_iff)
    with lt show ?thesis by simp
  next
    case False
    with le have "strcmp (pathname_at h (xs ! j)) s < 0" by simp
    with lt show ?thesis by (rule strcmp_trans)
  qed
qed

lemma sorted_pathname_inj:
  assumes "children_sorted h xs" and "i < length xs" and "k < length xs"
    and "pathname_at h (xs ! i) = pathname_at h (xs ! k)"
  shows "i = k"
proof (rule ccontr)
  assume "i \<noteq> k"
  then consider "i < k" | "k < i" by linarith
  then show False
  proof cases
    case 1
    with assms(1,3) have "path_less h (xs ! i) (xs ! k)"
      by (simp add: children_sorted_def sorted_wrt_iff_nth_less)
    with assms(4) show False by (simp add: path_less_live strcmp_refl)
  next
    case 2
    with assms(1,2) have "path_less h (xs ! k) (xs ! i)"
      by (simp add: children_sorted_def sorted_wrt_iff_nth_less)
    with assms(4) show False by (simp add: path_less_live strcmp_refl)
  qed
qed

lemma bsearch_member:
  assumes live: "\<forall>c\<in>set xs. lookup h c \<noteq> None"
    and srt: "children_sorted h xs"
    and k: "k < length xs"
  shows "bsearch_loop (\<lambda>c. Node_compare h c (xs ! k)) xs 0 (length xs) = Inr (True, k)"
proof -
  let ?a = "xs ! k"
  let ?f = "\<lambda>c. strcmp (pathname_at h c) (pathname_at h ?a)"
  have al: "lookup h ?a \<noteq> None" using live k by simp
  have vals: "\<forall>c\<in>set xs. Node_compare h c ?a = Inr (?f c)"
    using live al by (simp add: Node_compare_live)
  from bsearch_loop_sorted[of xs "\<lambda>c. Node_compare h c ?a" ?f 0 "length xs",
      OF vals sorted_key_mono[OF srt]]
  obtain found i where r: "bsearch_loop (\<lambda>c. Node_compare h c ?a) xs 0 (length xs) = Inr (found, i)"
    and lo: "\<forall>j<i. ?f (xs ! j) < 0"
    and hi: "if found then i < length xs \<and> ?f (xs ! i) = 0
             else (\<forall>j. i \<le> j \<and> j < length xs \<longrightarrow> 0 < ?f (xs ! j))"
    by auto
  have z: "?f (xs ! k) = 0" by (simp add: strcmp_refl)
  have found
  proof (rule ccontr)
    assume nf: "\<not> found"
    show False
    proof (cases "k < i")
      case True
      with lo z show False by fastforce
    next
      case False
      with nf hi k have "0 < ?f (xs ! k)" by simp
      with z show False by simp
    qed
  qed
  with hi have i: "i < length xs" and "?f (xs ! i) = 0" by simp_all
  then have "pathname_at h (xs ! i) = pathname_at h (xs ! k)" by (simp add: strcmp_eq_0_iff)
  from sorted_pathname_inj[OF srt i k this] r \<open>found\<close> show ?thesis by simp
qed

lemma bsearch_absent:
  assumes live: "\<forall>c\<in>set ys. lookup h c \<noteq> None" and a: "lookup h a \<noteq> None"
    and ncl: "\<forall>y\<in>set ys. path_less h a y \<or> path_less h y a"
  shows "\<exists>j. bsearch_loop (\<lambda>c. Node_compare h c a) ys 0 (length ys) = Inr (False, j)"
proof -
  have vals: "\<forall>c\<in>set ys. \<exists>v. Node_compare h c a = Inr v"
    using live a by (simp add: Node_compare_live)
  from bsearch_loop_total[OF vals, of 0 "length ys"]
  obtain found j where r: "bsearch_loop (\<lambda>c. Node_compare h c a) ys 0 (length ys) = Inr (found, j)"
    and f: "found \<longrightarrow> j < length ys \<and> Node_compare h (ys ! j) a = Inr 0"
    by auto
  have "\<not> found"
  proof
    assume found
    with f have j: "j < length ys" and c: "Node_compare h (ys ! j) a = Inr 0" by auto
    from j have m: "ys ! j \<in> set ys" by simp
    with live a c have "strcmp (pathname_at h (ys ! j)) (pathname_at h a) = 0"
      by (simp add: Node_compare_live)
    then have "pathname_at h (ys ! j) = pathname_at h a" by (simp add: strcmp_eq_0_iff)
    moreover from ncl m have "path_less h a (ys ! j) \<or> path_less h (ys ! j) a" by blast
    ultimately show False by (auto simp: path_less_live strcmp_refl)
  qed
  with r show ?thesis by auto
qed

section \<open>Child lookup without a match\<close>

lemma key_cmp:
  "lookup h c = Some nd \<Longrightarrow>
     Node_compareString h c s = Inr (strcmp (Path_getPathname (oPPath nd)) s)"
  by (simp add: Node_compareString_def Path_compareString_def)

text \<open>
  C10: when the parent is allocated, both collections are present, every child is
  allocated and no child has the candidate's pathname, both binary searches fail,
  \<^verbatim>\<open>Node_hasChild\<close> returns false, \<^verbatim>\<open>*isDir\<close> keeps the value \<open>b\<close> it had, and the index
  stored is the one the search of the file children computed (the index of the search of
  the directory children is overwritten). That index is at most the number of file
  children, and when the file children are sorted it is the number of file children
  whose pathname is before the candidate's: the place to insert into the file children.
\<close>

theorem Node_hasChild_no_match:
  assumes "lookup h q = Some par"
    and "oDDirChildren par = Some ds" and "oDFileChildren par = Some fs"
    and "\<forall>c\<in>set ds \<union> set fs. \<exists>nd. lookup h c = Some nd
            \<and> Path_getPathname (oPPath nd) \<noteq> Path_getPathname p"
  shows "\<exists>i j. DynArray_bsearch (Some ds) (\<lambda>c. Node_compareString h c (Path_getPathname p))
                  = Inr (False, i)
     \<and> DynArray_bsearch (Some fs) (\<lambda>c. Node_compareString h c (Path_getPathname p))
                  = Inr (False, j)
     \<and> Node_hasChild h q p b = Inr (False, j, b)
     \<and> j \<le> length fs
     \<and> (children_sorted h fs \<longrightarrow> j = length (filter (before_key h (Path_getPathname p)) fs))"
proof -
  let ?s = "Path_getPathname p"
  let ?cmp = "\<lambda>c. Node_compareString h c ?s"
  let ?f = "\<lambda>c. strcmp (pathname_at h c) ?s"
  have val: "?cmp c = Inr (?f c) \<and> ?f c \<noteq> 0 \<and> (before_key h ?s c \<longleftrightarrow> ?f c < 0)"
    if "c \<in> set ds \<union> set fs" for c
  proof -
    from assms(4) that obtain nd where "lookup h c = Some nd"
      "Path_getPathname (oPPath nd) \<noteq> ?s" by blast
    then show ?thesis
      by (simp add: key_cmp pathname_at_def before_key_def Path_compareString_def strcmp_eq_0_iff)
  qed
  have dv: "\<forall>c\<in>set ds. \<exists>v. ?cmp c = Inr v" and fv: "\<forall>c\<in>set fs. \<exists>v. ?cmp c = Inr v"
    using val by auto
  from bsearch_loop_total[OF dv, of 0 "length ds"]
  obtain fd i where i: "bsearch_loop ?cmp ds 0 (length ds) = Inr (fd, i)"
    "fd \<longrightarrow> i < length ds \<and> ?cmp (ds ! i) = Inr 0" by auto
  have nfd: "\<not> fd"
  proof
    assume fd
    with i have "i < length ds" "?cmp (ds ! i) = Inr 0" by auto
    with val[of "ds ! i"] show False by auto
  qed
  from bsearch_loop_total[OF fv, of 0 "length fs"]
  obtain ff j where j: "bsearch_loop ?cmp fs 0 (length fs) = Inr (ff, j)"
    "ff \<longrightarrow> j < length fs \<and> ?cmp (fs ! j) = Inr 0" "j \<le> length fs" by auto
  have nff: "\<not> ff"
  proof
    assume ff
    with j have "j < length fs" "?cmp (fs ! j) = Inr 0" by auto
    with val[of "fs ! j"] show False by auto
  qed
  have place: "j = length (filter (before_key h ?s) fs)" if srt: "children_sorted h fs"
  proof -
    have fval: "\<forall>c\<in>set fs. ?cmp c = Inr (?f c)" using val by auto
    from bsearch_loop_sorted[of fs ?cmp ?f 0 "length fs", OF fval sorted_key_mono[OF srt]] j(1) nff
    have lo: "\<forall>k<j. ?f (fs ! k) < 0" and hi: "\<forall>k. j \<le> k \<and> k < length fs \<longrightarrow> 0 < ?f (fs ! k)"
      by auto
    have "length (filter (before_key h ?s) fs) = j"
    proof (rule length_filter_split[OF j(3)])
      show "\<forall>k<j. before_key h ?s (fs ! k)" using lo val j(3) by auto
      show "\<forall>k. j \<le> k \<and> k < length fs \<longrightarrow> \<not> before_key h ?s (fs ! k)"
        using hi val by fastforce
    qed
    then show ?thesis by simp
  qed
  have "Node_hasChild h q p b = Inr (False, j, b)"
    using assms(1-3) i(1) j(1) nfd nff
    by (simp add: Node_hasChild_def DynArray_bsearch_def)
  with i(1) j(1,3) nfd nff place show ?thesis
    by (auto simp: DynArray_bsearch_def)
qed

text \<open>
  The witness: under \<^verbatim>\<open>r\<close> with the directories \<^verbatim>\<open>r/a\<close>, \<^verbatim>\<open>r/c\<close> and the file \<^verbatim>\<open>r/b\<close>,
  the candidate \<^verbatim>\<open>r/d\<close> belongs at index 2 of the directories and at index 1 of the
  files; \<^verbatim>\<open>Node_hasChild\<close> stores 1.
\<close>

theorem Node_hasChild_no_match_witness:
  "lookup heap_mix 0 = Some (dir_node [''r''] None [1, 3] [2])
   \<and> DynArray_bsearch (Some [1, 3]) (\<lambda>c. Node_compareString heap_mix c ''r/d'') = Inr (False, 2)
   \<and> DynArray_bsearch (Some [2]) (\<lambda>c. Node_compareString heap_mix c ''r/d'') = Inr (False, 1)
   \<and> Node_hasChild heap_mix 0 [''r'', ''d''] True = Inr (False, 1, True)
   \<and> Node_hasChild heap_mix 0 [''r'', ''d''] False = Inr (False, 1, False)
   \<and> children_sorted heap_mix [2]
   \<and> length (filter (before_key heap_mix ''r/d'') [2]) = 1"
proof -
  have l: "lookup heap_mix 0 = Some (dir_node [''r''] None [1, 3] [2])"
    by (simp add: heap_mix_def lookup_def)
  have d: "oDDirChildren (dir_node [''r''] None [1, 3] [2]) = Some [1, 3]"
    and f: "oDFileChildren (dir_node [''r''] None [1, 3] [2]) = Some [2]"
    by (simp_all add: dir_node_def)
  have nm: "\<forall>c\<in>set [1, 3] \<union> set [2]. \<exists>nd. lookup heap_mix c = Some nd
              \<and> Path_getPathname (oPPath nd) \<noteq> Path_getPathname [''r'', ''d'']"
    by (simp add: example_defs lookup_def)
  have bd: "DynArray_bsearch (Some [1, 3]) (\<lambda>c. Node_compareString heap_mix c ''r/d'')
              = Inr (False, 2)"
    and bf: "DynArray_bsearch (Some [2]) (\<lambda>c. Node_compareString heap_mix c ''r/d'')
              = Inr (False, 1)"
    by (simp_all add: example_defs operation_defs bsearch_loop.simps)
  have srt: "children_sorted heap_mix [2]" by (simp add: children_sorted_def)
  from Node_hasChild_no_match[OF l d f nm, of True]
    Node_hasChild_no_match[OF l d f nm, of False] l bd bf srt
  show ?thesis by auto
qed

section \<open>Insertion and sortedness\<close>

text \<open>
  A file is inserted at its place: when \<^verbatim>\<open>Node_new\<close> of a file succeeds under a parent
  whose children are allocated and whose file children are sorted, the directory children
  are unchanged and the file children are the old ones with the new node inserted, still
  sorted.
\<close>

lemma Node_new_file_sorted:
  assumes run: "Node_new al False p (Some q) c n h = Inr (SUCCESS, res, h')"
    and par: "lookup h q = Some par" "oDDirChildren par = Some ds" "oDFileChildren par = Some fs"
    and live: "\<forall>x\<in>set ds \<union> set fs. lookup h x \<noteq> None"
    and srt: "children_sorted h fs"
  shows "\<exists>par' j. res = Some (length h) \<and> lookup h' q = Some par'
           \<and> oDDirChildren par' = Some ds
           \<and> j \<le> length fs
           \<and> oDFileChildren par' = Some (take j fs @ length h # drop j fs)
           \<and> children_sorted h' (take j fs @ length h # drop j fs)"
proof -
  let ?s = "Path_getPathname p"
  let ?a = "length h"
  let ?f = "\<lambda>x. strcmp (pathname_at h x) ?s"
  let ?cmp = "\<lambda>x. Node_compareString h x ?s"
  from run par(1) obtain found j b where
    hc: "Node_hasChild h q p False = Inr (found, j, b)" and nf: "\<not> found"
    and link: "Node_new_link al False p (Some q) j c n h = Inr (SUCCESS, res, h')"
    by (auto simp: Node_new_def split: if_splits sum.splits)
  have vals: "\<forall>x\<in>set fs. ?cmp x = Inr (?f x)"
  proof
    fix x assume "x \<in> set fs"
    with live obtain xn where "lookup h x = Some xn" by auto
    then show "?cmp x = Inr (?f x)"
      by (simp add: Node_compareString_def pathname_at_def Path_compareString_def)
  qed
  from hc nf par obtain i where
    bf: "bsearch_loop ?cmp fs 0 (length fs) = Inr (False, j)"
    by (auto simp: Node_hasChild_def DynArray_bsearch_def split: sum.splits if_splits)
  from bsearch_loop_sorted[of fs ?cmp ?f 0 "length fs", OF vals sorted_key_mono[OF srt]] bf
  have jl: "j \<le> length fs" and lo: "\<forall>k<j. ?f (fs ! k) < 0"
    and hi: "\<forall>k. j \<le> k \<and> k < length fs \<longrightarrow> 0 < ?f (fs ! k)"
    by auto
  let ?new = "take j fs @ ?a # drop j fs"
  define par' where "par' = par\<lparr>oDFileChildren := Some ?new\<rparr>"
  define nd where "nd = \<lparr>isDir = False, oPPath = p, oNParent = Some q,
      oDDirChildren = Some [], oDFileChildren = Some [], fileContent = c, fileSize = n\<rparr>"
  have qlen: "q < length h" using par(1) by (rule lookup_Some_length)
  from link par jl have r: "res = Some ?a" and h': "h' = h[q := Some par'] @ [Some nd]"
    by (auto simp: Node_new_link_def Node_addChild_def DynArray_addAt_def par'_def nd_def
        split: if_splits)
  have lq: "lookup h' q = Some par'" using qlen by (simp add: h' lookup_append_old lookup_update)
  have pa: "pathname_at h' ?a = ?s"
    using lookup_append_new[of "h[q := Some par']" "Some nd"]
    by (simp add: h' pathname_at_def nd_def)
  have la: "lookup h' ?a \<noteq> None"
    using lookup_append_new[of "h[q := Some par']" "Some nd"] by (simp add: h')
  have old: "lookup h' x \<noteq> None \<and> pathname_at h' x = pathname_at h x
               \<and> map_option oPPath (lookup h' x) = map_option oPPath (lookup h x)"
    if "x \<in> set fs" for x
  proof -
    from live that obtain xn where xn: "lookup h x = Some xn" by auto
    then have "x < length h" by (rule lookup_Some_length)
    then have "lookup h' x = (if x = q then Some par' else lookup h x)"
      using qlen by (simp add: h' lookup_append_old lookup_update)
    with xn par(1) show ?thesis by (auto simp: pathname_at_def par'_def)
  qed
  have sfs: "sorted_wrt (path_less h') fs"
  proof -
    have "children_sorted h' fs = children_sorted h fs"
      by (rule children_sorted_cong) (simp add: old)
    with srt show ?thesis by (simp add: children_sorted_def)
  qed
  have split: "sorted_wrt (path_less h') (take j fs) \<and> sorted_wrt (path_less h') (drop j fs)
                 \<and> (\<forall>x\<in>set (take j fs). \<forall>y\<in>set (drop j fs). path_less h' x y)"
    using sfs sorted_wrt_append[of "path_less h'" "take j fs" "drop j fs"] by simp
  have before: "path_less h' x ?a" if "x \<in> set (take j fs)" for x
  proof -
    from that obtain k where k: "k < j" "k < length fs" "x = fs ! k"
      by (auto simp: in_set_conv_nth)
    with lo have "?f x < 0" by simp
    moreover have "x \<in> set fs" using k by simp
    ultimately show ?thesis using old[of x] la pa by (simp add: path_less_live)
  qed
  have after: "path_less h' ?a y" if "y \<in> set (drop j fs)" for y
  proof -
    from that obtain k where k: "j \<le> k" "k < length fs" "y = fs ! k"
      by (auto simp: in_set_conv_nth) (metis add.commute le_add2 less_diff_conv)
    with hi have "0 < ?f y" by simp
    then have "strcmp ?s (pathname_at h y) < 0" by (simp add: strcmp_antisym)
    moreover have "y \<in> set fs" using k by simp
    ultimately show ?thesis using old[of y] la pa by (simp add: path_less_live)
  qed
  have "sorted_wrt (path_less h') ?new"
    using split before after by (auto simp: sorted_wrt_append)
  then have "children_sorted h' ?new" by (simp add: children_sorted_def)
  with r lq jl par(2) show ?thesis by (auto simp: par'_def)
qed

text \<open>
  C1, evaluated: the root \<^verbatim>\<open>r\<close> has the one directory \<^verbatim>\<open>r/a\<close>, a sorted collection.
  \<^verbatim>\<open>Node_new\<close> of the directory \<^verbatim>\<open>r/b\<close> succeeds and leaves the directory children
  \<^verbatim>\<open>r/b\<close>, \<^verbatim>\<open>r/a\<close>, which is not sorted: the new directory is inserted at index 0, the
  place \<^verbatim>\<open>Node_hasChild\<close> computed in the (empty) file children.
\<close>

theorem Node_new_directory_unsorted:
  "map_option oDDirChildren (lookup heap_ra 0) = Some (Some [1])
   \<and> children_sorted heap_ra [1]
   \<and> Node_hasChild heap_ra 0 [''r'', ''b''] False = Inr (False, 0, False)
   \<and> Node_new al_ok True [''r'', ''b''] (Some 0) None 0 heap_ra = Inr (SUCCESS, Some 2, heap_rab)
   \<and> map_option oDDirChildren (lookup heap_rab 0) = Some (Some [2, 1])
   \<and> \<not> children_sorted heap_rab [2, 1]"
  by (simp add: example_defs operation_defs bsearch_loop.simps children_sorted_def path_less_def)

section \<open>Freeing a tree\<close>

subsection \<open>More calls allowed, same result\<close>

lemma fuel_mono_all:
  "(\<forall>h a r m. n \<le> m \<longrightarrow> Node_free n h a = Inr r \<longrightarrow> Node_free m h a = Inr r) \<and>
   (\<forall>h a c r m. n \<le> m \<longrightarrow> free_dirs n h a c = Inr r \<longrightarrow> free_dirs m h a c = Inr r) \<and>
   (\<forall>h a c r m. n \<le> m \<longrightarrow> free_files n h a c = Inr r \<longrightarrow> free_files m h a c = Inr r)"
proof (induction n)
  case 0
  show ?case by simp
next
  case (Suc n)
  from Suc have nf: "\<And>h a r m. n \<le> m \<Longrightarrow> Node_free n h a = Inr r \<Longrightarrow> Node_free m h a = Inr r"
    and fd: "\<And>h a c r m. n \<le> m \<Longrightarrow> free_dirs n h a c = Inr r \<Longrightarrow> free_dirs m h a c = Inr r"
    and ff: "\<And>h a c r m. n \<le> m \<Longrightarrow> free_files n h a c = Inr r \<Longrightarrow> free_files m h a c = Inr r"
    by blast+
  have 1: "Node_free m h a = Inr r" if "Suc n \<le> m" "Node_free (Suc n) h a = Inr r" for h a r m
  proof -
    from that(1) obtain m' where m: "m = Suc m'" "n \<le> m'" by (cases m) auto
    from that(2) obtain h1 h2 c1 nd h3 c2 nd' where
      s: "detach h a = Inr h1" "free_dirs n h1 a 0 = Inr (h2, c1)" "lookup h2 a = Some nd"
        "free_files n (h2[a := Some (nd\<lparr>oDDirChildren := None\<rparr>)]) a c1 = Inr (h3, c2)"
        "lookup h3 a = Some nd'" "r = (h3[a := None], c2 + 1)"
      by (auto split: sum.splits option.splits prod.splits)
    from fd[OF m(2) s(2)] ff[OF m(2) s(4)] s show ?thesis by (simp add: m)
  qed
  have 2: "free_dirs m h a c = Inr r" if "Suc n \<le> m" "free_dirs (Suc n) h a c = Inr r" for h a c r m
  proof -
    from that(1) obtain m' where m: "m = Suc m'" "n \<le> m'" by (cases m) auto
    from that(2) obtain nd len where s: "lookup h a = Some nd"
      "DynArray_getLength (oDDirChildren nd) = Inr len"
      by (auto split: sum.splits option.splits prod.splits)
    show ?thesis
    proof (cases "len = 0")
      case True
      with that(2) s show ?thesis by (simp add: m)
    next
      case False
      with that(2) s obtain ch h1 k where t: "DynArray_get (oDDirChildren nd) 0 = Inr ch"
        "Node_free n h ch = Inr (h1, k)" "free_dirs n h1 a (c + k) = Inr r"
        by (auto split: sum.splits option.splits prod.splits)
      from nf[OF m(2) t(2)] fd[OF m(2) t(3)] s t False show ?thesis by (simp add: m)
    qed
  qed
  have 3: "free_files m h a c = Inr r" if "Suc n \<le> m" "free_files (Suc n) h a c = Inr r" for h a c r m
  proof -
    from that(1) obtain m' where m: "m = Suc m'" "n \<le> m'" by (cases m) auto
    from that(2) obtain nd len where s: "lookup h a = Some nd"
      "DynArray_getLength (oDFileChildren nd) = Inr len"
      by (auto split: sum.splits option.splits prod.splits)
    show ?thesis
    proof (cases "len = 0")
      case True
      with that(2) s show ?thesis by (simp add: m)
    next
      case False
      with that(2) s obtain ch h1 k where t: "DynArray_get (oDFileChildren nd) 0 = Inr ch"
        "Node_free n h ch = Inr (h1, k)" "free_files n h1 a (c + k) = Inr r"
        by (auto split: sum.splits option.splits prod.splits)
      from nf[OF m(2) t(2)] ff[OF m(2) t(3)] s t False show ?thesis by (simp add: m)
    qed
  qed
  from 1 2 3 show ?case by blast
qed

lemma Node_free_mono: "Node_free n h a = Inr r \<Longrightarrow> n \<le> m \<Longrightarrow> Node_free m h a = Inr r"
  using fuel_mono_all[of n] by blast

lemma free_dirs_mono: "free_dirs n h a c = Inr r \<Longrightarrow> n \<le> m \<Longrightarrow> free_dirs m h a c = Inr r"
  using fuel_mono_all[of n] by blast

lemma free_files_mono: "free_files n h a c = Inr r \<Longrightarrow> n \<le> m \<Longrightarrow> free_files m h a c = Inr r"
  using fuel_mono_all[of n] by blast

subsection \<open>Well-formed trees\<close>

lemma root_in_addrs: "root_of t \<in> set (addrs t)"
  by (cases t) simp

lemma well_formed_root:
  "well_formed h q t \<Longrightarrow> \<exists>nd. lookup h (root_of t) = Some nd \<and> oNParent nd = q"
  by (cases t) (auto split: option.splits)

lemma well_formed_frame:
  "(\<forall>x\<in>set (addrs t). lookup h' x = lookup h x) \<Longrightarrow> well_formed h' q t = well_formed h q t"
proof (induction t arbitrary: q)
  case (FNode a ds fs)
  have la: "lookup h' a = lookup h a" using FNode.prems by simp
  have sub: "\<forall>x\<in>set (addrs c). lookup h' x = lookup h x" if "c \<in> set ds \<union> set fs" for c
    using FNode.prems that by auto
  have roots: "lookup h' (root_of c) = lookup h (root_of c)" if "c \<in> set ds \<union> set fs" for c
    using sub[OF that] root_in_addrs[of c] by blast
  have sd: "children_sorted h' (map root_of ds) = children_sorted h (map root_of ds)"
    by (rule children_sorted_cong) (auto simp: roots)
  have sf: "children_sorted h' (map root_of fs) = children_sorted h (map root_of fs)"
    by (rule children_sorted_cong) (auto simp: roots)
  have pl: "path_less h' (root_of c) (root_of d) = path_less h (root_of c) (root_of d)"
    if "c \<in> set ds \<union> set fs" "d \<in> set ds \<union> set fs" for c d
    using roots[OF that(1)] roots[OF that(2)] by (intro path_less_cong) simp_all
  have cl: "list_all (\<lambda>d. list_all (\<lambda>f. path_less h' (root_of d) (root_of f)
                                       \<or> path_less h' (root_of f) (root_of d)) fs) ds
          = list_all (\<lambda>d. list_all (\<lambda>f. path_less h (root_of d) (root_of f)
                                       \<or> path_less h (root_of f) (root_of d)) fs) ds"
    by (auto simp: list_all_iff pl)
  have wd: "list_all (well_formed h' (Some a)) ds = list_all (well_formed h (Some a)) ds"
  proof -
    have "well_formed h' (Some a) c = well_formed h (Some a) c" if "c \<in> set ds" for c
      using FNode.IH(1)[OF that] sub[of c] that by blast
    then show ?thesis by (simp add: list_all_iff)
  qed
  have wf: "list_all (well_formed h' (Some a)) fs = list_all (well_formed h (Some a)) fs"
  proof -
    have "well_formed h' (Some a) c = well_formed h (Some a) c" if "c \<in> set fs" for c
      using FNode.IH(2)[OF that] sub[of c] that by blast
    then show ?thesis by (simp add: list_all_iff)
  qed
  show ?case by (cases "lookup h a") (simp_all add: la sd sf cl wd wf)
qed

lemma distinct_concat_member:
  "distinct (concat (map f xs)) \<Longrightarrow> x \<in> set xs \<Longrightarrow> distinct (f x)"
  by (induction xs) auto

subsection \<open>Detaching a child from its parent\<close>

lemma detach_dir_child:
  assumes c: "lookup h (xs ! i) = Some cn" "oNParent cn = Some a"
    and a: "lookup h a = Some an" "oDDirChildren an = Some xs" "oDFileChildren an = Some ys"
    and i: "i < length xs"
    and live: "\<forall>x\<in>set xs \<union> set ys. lookup h x \<noteq> None"
    and srt: "children_sorted h xs"
    and ncl: "\<forall>y\<in>set ys. path_less h (xs ! i) y \<or> path_less h y (xs ! i)"
  shows "detach h (xs ! i) =
           Inr (h[a := Some (an\<lparr>oDDirChildren := Some (take i xs @ drop (Suc i) xs)\<rparr>)])"
proof -
  let ?h1 = "h[a := Some (an\<lparr>oDDirChildren := Some (take i xs @ drop (Suc i) xs)\<rparr>)]"
  have alen: "a < length h" using a(1) by (rule lookup_Some_length)
  have l1: "\<forall>x\<in>set xs. lookup h x \<noteq> None" using live by simp
  have d: "remove_from_dirs h a (xs ! i) = Inr ?h1"
    using a i bsearch_member[OF l1 srt i]
    by (simp add: remove_from_dirs_def DynArray_bsearch_def DynArray_removeAt_def)
  have same: "map_option oPPath (lookup ?h1 x) = map_option oPPath (lookup h x)" for x
    using a(1) alen by (simp add: lookup_update)
  have cmp: "(\<lambda>x. Node_compare ?h1 x (xs ! i)) = (\<lambda>x. Node_compare h x (xs ! i))"
    by (rule ext) (rule Node_compare_cong[OF same same])
  have l2: "\<forall>x\<in>set ys. lookup h x \<noteq> None" using live by simp
  have c': "lookup h (xs ! i) \<noteq> None" using c by simp
  from bsearch_absent[OF l2 c' ncl] obtain j where
    j: "bsearch_loop (\<lambda>x. Node_compare h x (xs ! i)) ys 0 (length ys) = Inr (False, j)" by blast
  have f: "remove_from_files ?h1 a (xs ! i) = Inr ?h1"
    using a alen j by (simp add: remove_from_files_def DynArray_bsearch_def lookup_update cmp)
  show ?thesis using c d f by (simp add: detach_def)
qed

lemma detach_file_child:
  assumes c: "lookup h (ys ! i) = Some cn" "oNParent cn = Some a"
    and a: "lookup h a = Some an" "oDDirChildren an = Some xs" "oDFileChildren an = Some ys"
    and i: "i < length ys"
    and live: "\<forall>x\<in>set xs \<union> set ys. lookup h x \<noteq> None"
    and srt: "children_sorted h ys"
    and ncl: "\<forall>x\<in>set xs. path_less h (ys ! i) x \<or> path_less h x (ys ! i)"
  shows "detach h (ys ! i) =
           Inr (h[a := Some (an\<lparr>oDFileChildren := Some (take i ys @ drop (Suc i) ys)\<rparr>)])"
proof -
  have l1: "\<forall>x\<in>set xs. lookup h x \<noteq> None" and l2: "\<forall>x\<in>set ys. lookup h x \<noteq> None"
    using live by simp_all
  have c': "lookup h (ys ! i) \<noteq> None" using c by simp
  from bsearch_absent[OF l1 c' ncl] obtain j where
    j: "bsearch_loop (\<lambda>x. Node_compare h x (ys ! i)) xs 0 (length xs) = Inr (False, j)" by blast
  have d: "remove_from_dirs h a (ys ! i) = Inr h"
    using a j by (simp add: remove_from_dirs_def DynArray_bsearch_def)
  have f: "remove_from_files h a (ys ! i) =
             Inr (h[a := Some (an\<lparr>oDFileChildren := Some (take i ys @ drop (Suc i) ys)\<rparr>)])"
    using a i bsearch_member[OF l2 srt i]
    by (simp add: remove_from_files_def DynArray_bsearch_def DynArray_removeAt_def)
  show ?thesis using c d f by (simp add: detach_def)
qed

lemma detach_dir_head:
  assumes "lookup h c = Some cn" and "oNParent cn = Some a"
    and "lookup h a = Some an" and "oDDirChildren an = Some (c # rest)"
    and "oDFileChildren an = Some fs"
    and "\<forall>x\<in>set rest \<union> set fs. lookup h x \<noteq> None"
    and "children_sorted h (c # rest)"
    and "\<forall>y\<in>set fs. path_less h c y \<or> path_less h y c"
  shows "detach h c = Inr (h[a := Some (an\<lparr>oDDirChildren := Some rest\<rparr>)])"
  using detach_dir_child[of h "c # rest" 0 cn a an fs] assms by simp

lemma detach_file_head:
  assumes "lookup h c = Some cn" and "oNParent cn = Some a"
    and "lookup h a = Some an" and "oDDirChildren an = None"
    and "oDFileChildren an = Some (c # rest)"
    and "\<forall>x\<in>set rest. lookup h x \<noteq> None"
    and "children_sorted h (c # rest)"
  shows "detach h c = Inr (h[a := Some (an\<lparr>oDFileChildren := Some rest\<rparr>)])"
proof -
  have l: "\<forall>x\<in>set (c # rest). lookup h x \<noteq> None" using assms(1,6) by simp
  have d: "remove_from_dirs h a c = Inr h"
    using assms(3,4) by (simp add: remove_from_dirs_def)
  have f: "remove_from_files h a c = Inr (h[a := Some (an\<lparr>oDFileChildren := Some rest\<rparr>)])"
    using assms(3,5) bsearch_member[OF l assms(7), of 0]
    by (simp add: remove_from_files_def DynArray_bsearch_def DynArray_removeAt_def)
  show ?thesis using assms(1,2) d f by (simp add: detach_def)
qed

subsection \<open>The two loops of \<^verbatim>\<open>Node_free\<close>\<close>

lemma free_dirs_loop:
  assumes "\<And>c h h1 q. c \<in> set rest \<Longrightarrow> detach h (root_of c) = Inr h1 \<Longrightarrow> well_formed h1 q c
              \<Longrightarrow> distinct (addrs c)
              \<Longrightarrow> \<exists>n. Node_free n h (root_of c) = Inr (clear (addrs c) h1, count_nodes c)"
    and "lookup g a = Some an"
    and "oDDirChildren an = Some (map root_of rest)"
    and "oDFileChildren an = Some froots"
    and "\<forall>c\<in>set rest. well_formed g (Some a) c"
    and "\<forall>x\<in>set froots. lookup g x \<noteq> None"
    and "children_sorted g (map root_of rest)"
    and "\<forall>c\<in>set rest. \<forall>y\<in>set froots. path_less g (root_of c) y \<or> path_less g y (root_of c)"
    and "distinct (concat (map addrs rest))"
    and "a \<notin> set (concat (map addrs rest))"
    and "set froots \<inter> set (concat (map addrs rest)) = {}"
  shows "\<exists>n. free_dirs n g a k =
           Inr ((clear (concat (map addrs rest)) g)[a := Some (an\<lparr>oDDirChildren := Some []\<rparr>)],
                k + sum_list (map count_nodes rest))"
  using assms
proof (induction rest arbitrary: g an k)
  case Nil
  have r: "an\<lparr>oDDirChildren := Some []\<rparr> = an" using Nil.prems(3) by simp
  have e: "(clear (concat (map addrs [])) g)[a := Some (an\<lparr>oDDirChildren := Some []\<rparr>)] = g"
    unfolding r using Nil.prems(2) by (intro heap_eqI) (auto simp: lookup_update clear_def)
  have f: "free_dirs (Suc 0) g a k = Inr (g, k)"
    using Nil.prems(2,3) by (simp add: DynArray_getLength_def)
  show ?case unfolding e using f by (intro exI[of _ "Suc 0"]) simp
next
  case (Cons c rest)
  let ?ca = "root_of c"
  let ?roots = "map root_of rest"
  have alen: "a < length g" using Cons.prems(2) by (rule lookup_Some_length)
  from Cons.prems(5) have wfc: "well_formed g (Some a) c" by simp
  from well_formed_root[OF wfc] obtain cn where cn: "lookup g ?ca = Some cn" "oNParent cn = Some a"
    by blast
  have rlive: "\<forall>x\<in>set ?roots. lookup g x \<noteq> None"
  proof
    fix x assume "x \<in> set ?roots"
    then obtain c' where "c' \<in> set rest" "x = root_of c'" by auto
    with Cons.prems(5) well_formed_root[of g "Some a" c'] show "lookup g x \<noteq> None" by auto
  qed
  have live: "\<forall>x\<in>set ?roots \<union> set froots. lookup g x \<noteq> None"
    using rlive Cons.prems(6) by blast
  have srt: "children_sorted g (?ca # ?roots)" using Cons.prems(7) by simp
  have ncl: "\<forall>y\<in>set froots. path_less g ?ca y \<or> path_less g y ?ca"
    using Cons.prems(8) by simp
  define an1 where "an1 = an\<lparr>oDDirChildren := Some ?roots\<rparr>"
  define g1 where "g1 = g[a := Some an1]"
  have dc: "oDDirChildren an = Some (?ca # ?roots)" using Cons.prems(3) by simp
  have det: "detach g ?ca = Inr g1"
    unfolding g1_def an1_def
    by (rule detach_dir_head[OF cn Cons.prems(2) dc Cons.prems(4) live srt ncl])
  have a_c: "a \<notin> set (addrs c)" using Cons.prems(10) by simp
  have wfc1: "well_formed g1 (Some a) c"
    using wfc a_c by (subst well_formed_frame[of c g1 g]) (auto simp: g1_def lookup_update)
  have dcs: "distinct (addrs c)" using Cons.prems(9) by simp
  from Cons.prems(1)[OF _ det wfc1 dcs]
  obtain n1 where n1: "Node_free n1 g ?ca = Inr (clear (addrs c) g1, count_nodes c)" by auto
  define g2 where "g2 = clear (addrs c) g1"
  have lg2: "lookup g2 x = (if x \<in> set (addrs c) then None else if x = a then Some an1 else lookup g x)" for x
    using alen by (simp add: g2_def g1_def lookup_clear lookup_update)
  have a2: "lookup g2 a = Some an1" using a_c by (simp add: lg2)
  have dr2: "oDDirChildren an1 = Some ?roots" and fr2: "oDFileChildren an1 = Some froots"
    using Cons.prems(4) by (simp_all add: an1_def)
  have disj: "x \<notin> set (addrs c)" if "x \<in> set (concat (map addrs rest))" for x
    using Cons.prems(9) that by auto
  have a_rest: "a \<notin> set (concat (map addrs rest))" using Cons.prems(10) by simp
  have same: "lookup g2 x = lookup g x" if "x \<in> set (concat (map addrs rest))" for x
    using disj[OF that] a_rest that by (auto simp: lg2)
  have wf2: "\<forall>c'\<in>set rest. well_formed g2 (Some a) c'"
  proof
    fix c' assume m: "c' \<in> set rest"
    have "\<forall>x\<in>set (addrs c'). lookup g2 x = lookup g x" using same m by auto
    from well_formed_frame[OF this] Cons.prems(5) m show "well_formed g2 (Some a) c'" by simp
  qed
  have f_c: "x \<notin> set (addrs c)" if "x \<in> set froots" for x
    using Cons.prems(11) that by auto
  have fl2: "\<forall>x\<in>set froots. lookup g2 x \<noteq> None"
    using Cons.prems(6) f_c by (auto simp: lg2)
  have rroots: "x \<in> set (concat (map addrs rest))" if "x \<in> set ?roots" for x
    using that root_in_addrs by fastforce
  have srt2: "children_sorted g2 ?roots"
  proof -
    have "\<forall>x\<in>set ?roots. map_option oPPath (lookup g2 x) = map_option oPPath (lookup g x)"
      using same rroots by simp
    then have "children_sorted g2 ?roots = children_sorted g ?roots"
      by (rule children_sorted_cong)
    with Cons.prems(7) show ?thesis by (simp add: children_sorted_def)
  qed
  have pf: "map_option oPPath (lookup g2 y) = map_option oPPath (lookup g y)" if "y \<in> set froots" for y
    using f_c[OF that] Cons.prems(2) by (auto simp: lg2 an1_def)
  have ncl2: "\<forall>c'\<in>set rest. \<forall>y\<in>set froots.
                 path_less g2 (root_of c') y \<or> path_less g2 y (root_of c')"
  proof (intro ballI)
    fix c' y assume m: "c' \<in> set rest" "y \<in> set froots"
    have r: "map_option oPPath (lookup g2 (root_of c')) = map_option oPPath (lookup g (root_of c'))"
      using same[OF rroots, of "root_of c'"] m by simp
    from Cons.prems(8) m have "path_less g (root_of c') y \<or> path_less g y (root_of c')" by simp
    then show "path_less g2 (root_of c') y \<or> path_less g2 y (root_of c')"
      by (simp add: path_less_cong[OF r pf[OF m(2)]] path_less_cong[OF pf[OF m(2)] r])
  qed
  have d2: "distinct (concat (map addrs rest))" using Cons.prems(9) by simp
  have i2: "set froots \<inter> set (concat (map addrs rest)) = {}" using Cons.prems(11) by auto
  have ih: "\<And>c h h1 q. c \<in> set rest \<Longrightarrow> detach h (root_of c) = Inr h1 \<Longrightarrow> well_formed h1 q c
              \<Longrightarrow> distinct (addrs c)
              \<Longrightarrow> \<exists>n. Node_free n h (root_of c) = Inr (clear (addrs c) h1, count_nodes c)"
    using Cons.prems(1) by simp
  have "\<exists>n. free_dirs n g2 a (k + count_nodes c) =
      Inr ((clear (concat (map addrs rest)) g2)[a := Some (an1\<lparr>oDDirChildren := Some []\<rparr>)],
           k + count_nodes c + sum_list (map count_nodes rest))"
    by (rule Cons.IH[OF _ a2 dr2 fr2 wf2 fl2 srt2 ncl2 d2 a_rest i2]) (rule ih; assumption)
  then obtain n2 where n2: "free_dirs n2 g2 a (k + count_nodes c) =
      Inr ((clear (concat (map addrs rest)) g2)[a := Some (an1\<lparr>oDDirChildren := Some []\<rparr>)],
           k + count_nodes c + sum_list (map count_nodes rest))" by blast
  let ?n = "max n1 n2"
  have s1: "Node_free ?n g ?ca = Inr (g2, count_nodes c)"
    using Node_free_mono[OF n1, of ?n] by (simp add: g2_def)
  have s2: "free_dirs ?n g2 a (k + count_nodes c) =
      Inr ((clear (concat (map addrs rest)) g2)[a := Some (an1\<lparr>oDDirChildren := Some []\<rparr>)],
           k + count_nodes c + sum_list (map count_nodes rest))"
    using free_dirs_mono[OF n2, of ?n] by simp
  have heq: "(clear (concat (map addrs rest)) g2)[a := Some (an1\<lparr>oDDirChildren := Some []\<rparr>)]
      = (clear (concat (map addrs (c # rest))) g)[a := Some (an\<lparr>oDDirChildren := Some []\<rparr>)]"
    by (rule heap_eqI)
      (auto simp: length_clear g2_def g1_def an1_def lookup_update lookup_clear)
  have "free_dirs (Suc ?n) g a k =
      Inr ((clear (concat (map addrs (c # rest))) g)[a := Some (an\<lparr>oDDirChildren := Some []\<rparr>)],
           k + sum_list (map count_nodes (c # rest)))"
    using Cons.prems(2) dc s1 s2 heq
    by (simp add: DynArray_getLength_def DynArray_get_def add.assoc)
  then show ?case by blast
qed

lemma free_files_loop:
  assumes "\<And>c h h1 q. c \<in> set rest \<Longrightarrow> detach h (root_of c) = Inr h1 \<Longrightarrow> well_formed h1 q c
              \<Longrightarrow> distinct (addrs c)
              \<Longrightarrow> \<exists>n. Node_free n h (root_of c) = Inr (clear (addrs c) h1, count_nodes c)"
    and "lookup g a = Some an"
    and "oDDirChildren an = None"
    and "oDFileChildren an = Some (map root_of rest)"
    and "\<forall>c\<in>set rest. well_formed g (Some a) c"
    and "children_sorted g (map root_of rest)"
    and "distinct (concat (map addrs rest))"
    and "a \<notin> set (concat (map addrs rest))"
  shows "\<exists>n. free_files n g a k =
           Inr ((clear (concat (map addrs rest)) g)[a := Some (an\<lparr>oDFileChildren := Some []\<rparr>)],
                k + sum_list (map count_nodes rest))"
  using assms
proof (induction rest arbitrary: g an k)
  case Nil
  have r: "an\<lparr>oDFileChildren := Some []\<rparr> = an" using Nil.prems(4) by simp
  have e: "(clear (concat (map addrs [])) g)[a := Some (an\<lparr>oDFileChildren := Some []\<rparr>)] = g"
    unfolding r using Nil.prems(2) by (intro heap_eqI) (auto simp: lookup_update clear_def)
  have f: "free_files (Suc 0) g a k = Inr (g, k)"
    using Nil.prems(2,4) by (simp add: DynArray_getLength_def)
  show ?case unfolding e using f by (intro exI[of _ "Suc 0"]) simp
next
  case (Cons c rest)
  let ?ca = "root_of c"
  let ?roots = "map root_of rest"
  have alen: "a < length g" using Cons.prems(2) by (rule lookup_Some_length)
  from Cons.prems(5) have wfc: "well_formed g (Some a) c" by simp
  from well_formed_root[OF wfc] obtain cn where cn: "lookup g ?ca = Some cn" "oNParent cn = Some a"
    by blast
  have rlive: "\<forall>x\<in>set ?roots. lookup g x \<noteq> None"
  proof
    fix x assume "x \<in> set ?roots"
    then obtain c' where "c' \<in> set rest" "x = root_of c'" by auto
    with Cons.prems(5) well_formed_root[of g "Some a" c'] show "lookup g x \<noteq> None" by auto
  qed
  have srt: "children_sorted g (?ca # ?roots)" using Cons.prems(6) by simp
  define an1 where "an1 = an\<lparr>oDFileChildren := Some ?roots\<rparr>"
  define g1 where "g1 = g[a := Some an1]"
  have fc: "oDFileChildren an = Some (?ca # ?roots)" using Cons.prems(4) by simp
  have det: "detach g ?ca = Inr g1"
    unfolding g1_def an1_def
    by (rule detach_file_head[OF cn Cons.prems(2,3) fc rlive srt])
  have a_c: "a \<notin> set (addrs c)" using Cons.prems(8) by simp
  have wfc1: "well_formed g1 (Some a) c"
    using wfc a_c by (subst well_formed_frame[of c g1 g]) (auto simp: g1_def lookup_update)
  have dcs: "distinct (addrs c)" using Cons.prems(7) by simp
  from Cons.prems(1)[OF _ det wfc1 dcs]
  obtain n1 where n1: "Node_free n1 g ?ca = Inr (clear (addrs c) g1, count_nodes c)" by auto
  define g2 where "g2 = clear (addrs c) g1"
  have lg2: "lookup g2 x = (if x \<in> set (addrs c) then None else if x = a then Some an1 else lookup g x)" for x
    using alen by (simp add: g2_def g1_def lookup_clear lookup_update)
  have a2: "lookup g2 a = Some an1" using a_c by (simp add: lg2)
  have dr2: "oDDirChildren an1 = None" and fr2: "oDFileChildren an1 = Some ?roots"
    using Cons.prems(3) by (simp_all add: an1_def)
  have disj: "x \<notin> set (addrs c)" if "x \<in> set (concat (map addrs rest))" for x
    using Cons.prems(7) that by auto
  have a_rest: "a \<notin> set (concat (map addrs rest))" using Cons.prems(8) by simp
  have same: "lookup g2 x = lookup g x" if "x \<in> set (concat (map addrs rest))" for x
    using disj[OF that] a_rest that by (auto simp: lg2)
  have wf2: "\<forall>c'\<in>set rest. well_formed g2 (Some a) c'"
  proof
    fix c' assume m: "c' \<in> set rest"
    have "\<forall>x\<in>set (addrs c'). lookup g2 x = lookup g x" using same m by auto
    from well_formed_frame[OF this] Cons.prems(5) m show "well_formed g2 (Some a) c'" by simp
  qed
  have rroots: "x \<in> set (concat (map addrs rest))" if "x \<in> set ?roots" for x
    using that root_in_addrs by fastforce
  have srt2: "children_sorted g2 ?roots"
  proof -
    have "\<forall>x\<in>set ?roots. map_option oPPath (lookup g2 x) = map_option oPPath (lookup g x)"
      using same rroots by simp
    then have "children_sorted g2 ?roots = children_sorted g ?roots"
      by (rule children_sorted_cong)
    with Cons.prems(6) show ?thesis by (simp add: children_sorted_def)
  qed
  have d2: "distinct (concat (map addrs rest))" using Cons.prems(7) by simp
  have ih: "\<And>c h h1 q. c \<in> set rest \<Longrightarrow> detach h (root_of c) = Inr h1 \<Longrightarrow> well_formed h1 q c
              \<Longrightarrow> distinct (addrs c)
              \<Longrightarrow> \<exists>n. Node_free n h (root_of c) = Inr (clear (addrs c) h1, count_nodes c)"
    using Cons.prems(1) by simp
  have "\<exists>n. free_files n g2 a (k + count_nodes c) =
      Inr ((clear (concat (map addrs rest)) g2)[a := Some (an1\<lparr>oDFileChildren := Some []\<rparr>)],
           k + count_nodes c + sum_list (map count_nodes rest))"
    by (rule Cons.IH[OF _ a2 dr2 fr2 wf2 srt2 d2 a_rest]) (rule ih; assumption)
  then obtain n2 where n2: "free_files n2 g2 a (k + count_nodes c) =
      Inr ((clear (concat (map addrs rest)) g2)[a := Some (an1\<lparr>oDFileChildren := Some []\<rparr>)],
           k + count_nodes c + sum_list (map count_nodes rest))" by blast
  let ?n = "max n1 n2"
  have s1: "Node_free ?n g ?ca = Inr (g2, count_nodes c)"
    using Node_free_mono[OF n1, of ?n] by (simp add: g2_def)
  have s2: "free_files ?n g2 a (k + count_nodes c) =
      Inr ((clear (concat (map addrs rest)) g2)[a := Some (an1\<lparr>oDFileChildren := Some []\<rparr>)],
           k + count_nodes c + sum_list (map count_nodes rest))"
    using free_files_mono[OF n2, of ?n] by simp
  have heq: "(clear (concat (map addrs rest)) g2)[a := Some (an1\<lparr>oDFileChildren := Some []\<rparr>)]
      = (clear (concat (map addrs (c # rest))) g)[a := Some (an\<lparr>oDFileChildren := Some []\<rparr>)]"
    by (rule heap_eqI)
      (auto simp: length_clear g2_def g1_def an1_def lookup_update lookup_clear)
  have "free_files (Suc ?n) g a k =
      Inr ((clear (concat (map addrs (c # rest))) g)[a := Some (an\<lparr>oDFileChildren := Some []\<rparr>)],
           k + sum_list (map count_nodes (c # rest)))"
    using Cons.prems(2) fc s1 s2 heq
    by (simp add: DynArray_getLength_def DynArray_get_def add.assoc)
  then show ?case by blast
qed

subsection \<open>The count of \<^verbatim>\<open>Node_free\<close>\<close>

lemma Node_free_tree:
  assumes "detach h (root_of t) = Inr h1" and "well_formed h1 q t" and "distinct (addrs t)"
  shows "\<exists>n. Node_free n h (root_of t) = Inr (clear (addrs t) h1, count_nodes t)"
  using assms
proof (induction t arbitrary: h h1 q)
  case (FNode a ds fs)
  let ?D = "concat (map addrs ds)" and ?F = "concat (map addrs fs)"
  from FNode.prems(2) obtain an where an: "lookup h1 a = Some an"
    and dr: "oDDirChildren an = Some (map root_of ds)"
    and fr: "oDFileChildren an = Some (map root_of fs)"
    and sd: "children_sorted h1 (map root_of ds)"
    and sf: "children_sorted h1 (map root_of fs)"
    and cl: "list_all (\<lambda>d. list_all (\<lambda>f. path_less h1 (root_of d) (root_of f)
                                       \<or> path_less h1 (root_of f) (root_of d)) fs) ds"
    and wd: "\<forall>c\<in>set ds. well_formed h1 (Some a) c"
    and wf: "\<forall>c\<in>set fs. well_formed h1 (Some a) c"
    by (auto simp: list_all_iff split: option.splits)
  have alen: "a < length h1" using an by (rule lookup_Some_length)
  have dD: "distinct ?D" and dF: "distinct ?F" and aD: "a \<notin> set ?D" and aF: "a \<notin> set ?F"
    and DF: "set ?D \<inter> set ?F = {}"
    using FNode.prems(3) by auto
  have froots: "x \<in> set ?F" if "x \<in> set (map root_of fs)" for x
    using that root_in_addrs by fastforce
  have flive: "\<forall>x\<in>set (map root_of fs). lookup h1 x \<noteq> None"
  proof
    fix x assume "x \<in> set (map root_of fs)"
    then obtain c' where "c' \<in> set fs" "x = root_of c'" by auto
    with wf well_formed_root[of h1 "Some a" c'] show "lookup h1 x \<noteq> None" by auto
  qed
  have ncl: "\<forall>c\<in>set ds. \<forall>y\<in>set (map root_of fs).
               path_less h1 (root_of c) y \<or> path_less h1 y (root_of c)"
    using cl by (auto simp: list_all_iff)
  have fD: "set (map root_of fs) \<inter> set ?D = {}" using froots DF by blast
  have ihd: "\<And>c h h1 q. c \<in> set ds \<Longrightarrow> detach h (root_of c) = Inr h1 \<Longrightarrow> well_formed h1 q c
              \<Longrightarrow> distinct (addrs c)
              \<Longrightarrow> \<exists>n. Node_free n h (root_of c) = Inr (clear (addrs c) h1, count_nodes c)"
    using FNode.IH(1) by blast
  have ihf: "\<And>c h h1 q. c \<in> set fs \<Longrightarrow> detach h (root_of c) = Inr h1 \<Longrightarrow> well_formed h1 q c
              \<Longrightarrow> distinct (addrs c)
              \<Longrightarrow> \<exists>n. Node_free n h (root_of c) = Inr (clear (addrs c) h1, count_nodes c)"
    using FNode.IH(2) by blast
  define g' where "g' = (clear ?D h1)[a := Some (an\<lparr>oDDirChildren := Some []\<rparr>)]"
  have "\<exists>n. free_dirs n h1 a 0 = Inr (g', 0 + sum_list (map count_nodes ds))"
    unfolding g'_def
    by (rule free_dirs_loop[OF _ an dr fr wd flive sd ncl dD aD fD]) (rule ihd; assumption)
  then obtain n1 where n1: "free_dirs n1 h1 a 0 = Inr (g', sum_list (map count_nodes ds))"
    by auto
  define an2 where "an2 = an\<lparr>oDDirChildren := None\<rparr>"
  define g'' where "g'' = g'[a := Some an2]"
  have lg': "lookup g' a = Some (an\<lparr>oDDirChildren := Some []\<rparr>)"
    using alen by (simp add: g'_def lookup_update length_clear)
  have e2: "(an\<lparr>oDDirChildren := Some []\<rparr>)\<lparr>oDDirChildren := None\<rparr> = an2"
    by (simp add: an2_def)
  have lg'': "lookup g'' x = (if x = a then Some an2 else if x \<in> set ?D then None else lookup h1 x)" for x
    using alen by (simp add: g''_def g'_def lookup_update lookup_clear length_clear)
  have a2: "lookup g'' a = Some an2" by (simp add: lg'')
  have dr2: "oDDirChildren an2 = None" and fr2: "oDFileChildren an2 = Some (map root_of fs)"
    using fr by (simp_all add: an2_def)
  have same: "lookup g'' x = lookup h1 x" if "x \<in> set ?F" for x
    using that aF DF by (auto simp: lg'')
  have wf2: "\<forall>c\<in>set fs. well_formed g'' (Some a) c"
  proof
    fix c assume m: "c \<in> set fs"
    have "\<forall>x\<in>set (addrs c). lookup g'' x = lookup h1 x" using same m by auto
    from well_formed_frame[OF this] wf m show "well_formed g'' (Some a) c" by simp
  qed
  have sf2: "children_sorted g'' (map root_of fs)"
  proof -
    have "\<forall>x\<in>set (map root_of fs). map_option oPPath (lookup g'' x) = map_option oPPath (lookup h1 x)"
      using same froots by simp
    then have "children_sorted g'' (map root_of fs) = children_sorted h1 (map root_of fs)"
      by (rule children_sorted_cong)
    with sf show ?thesis by simp
  qed
  define g3 where "g3 = (clear ?F g'')[a := Some (an2\<lparr>oDFileChildren := Some []\<rparr>)]"
  have "\<exists>n. free_files n g'' a (sum_list (map count_nodes ds)) =
          Inr (g3, sum_list (map count_nodes ds) + sum_list (map count_nodes fs))"
    unfolding g3_def
    by (rule free_files_loop[OF _ a2 dr2 fr2 wf2 sf2 dF aF]) (rule ihf; assumption)
  then obtain n2 where n2: "free_files n2 g'' a (sum_list (map count_nodes ds)) =
          Inr (g3, sum_list (map count_nodes ds) + sum_list (map count_nodes fs))" by blast
  have lg3: "lookup g3 a = Some (an2\<lparr>oDFileChildren := Some []\<rparr>)"
    using alen by (simp add: g3_def g''_def g'_def lookup_update length_clear)
  let ?n = "max n1 n2"
  have s1: "free_dirs ?n h1 a 0 = Inr (g', sum_list (map count_nodes ds))"
    using free_dirs_mono[OF n1, of ?n] by simp
  have s2: "free_files ?n g'' a (sum_list (map count_nodes ds)) =
          Inr (g3, sum_list (map count_nodes ds) + sum_list (map count_nodes fs))"
    using free_files_mono[OF n2, of ?n] by simp
  have heq: "g3[a := None] = clear (addrs (FNode a ds fs)) h1"
    using alen by (intro heap_eqI)
      (auto simp: length_clear g3_def g''_def g'_def lookup_update lookup_clear)
  have "Node_free (Suc ?n) h a = Inr (clear (addrs (FNode a ds fs)) h1, count_nodes (FNode a ds fs))"
    using FNode.prems(1) s1 lg' e2 s2[unfolded g''_def] lg3 heq
    by (simp add: g''_def)
  then show ?case by (intro exI[of _ "Suc ?n"]) simp
qed

text \<open>
  On a well-formed tree without a parent, whose nodes are at distinct addresses,
  \<^verbatim>\<open>Node_free\<close> returns the number of nodes of the tree and leaves the heap with exactly
  the cells of the tree freed, for every bound on the calls from some bound on.
\<close>

theorem Node_free_root_count:
  assumes "well_formed h None t" and "distinct (addrs t)"
  shows "\<exists>n. \<forall>m\<ge>n. Node_free m h (root_of t) = Inr (clear (addrs t) h, count_nodes t)"
proof -
  from well_formed_root[OF assms(1)] have "detach h (root_of t) = Inr h"
    by (auto simp: detach_def)
  from Node_free_tree[OF this assms] obtain n where
    "Node_free n h (root_of t) = Inr (clear (addrs t) h, count_nodes t)" by blast
  then show ?thesis using Node_free_mono by blast
qed

text \<open>
  The same for a child \<open>c\<close> of a well-formed node \<open>a\<close>: the call first removes \<open>c\<close> from
  the array of \<open>a\<close> (the heap \<open>h1\<close>, which differs from \<open>h\<close> in the cell of \<open>a\<close> only), and
  returns the number of nodes below and including \<open>c\<close>.
\<close>

theorem Node_free_child_count:
  assumes "well_formed h q (FNode a ds fs)" and "distinct (addrs (FNode a ds fs))"
    and "c \<in> set ds \<union> set fs"
  shows "\<exists>n h1. detach h (root_of c) = Inr h1
           \<and> (\<forall>x. x \<noteq> a \<longrightarrow> lookup h1 x = lookup h x)
           \<and> (\<forall>m\<ge>n. Node_free m h (root_of c) = Inr (clear (addrs c) h1, count_nodes c))"
proof -
  from assms(1) obtain an where an: "lookup h a = Some an"
    and dr: "oDDirChildren an = Some (map root_of ds)"
    and fr: "oDFileChildren an = Some (map root_of fs)"
    and sd: "children_sorted h (map root_of ds)"
    and sf: "children_sorted h (map root_of fs)"
    and cl: "list_all (\<lambda>d. list_all (\<lambda>f. path_less h (root_of d) (root_of f)
                                       \<or> path_less h (root_of f) (root_of d)) fs) ds"
    and wd: "\<forall>c\<in>set ds. well_formed h (Some a) c"
    and wf: "\<forall>c\<in>set fs. well_formed h (Some a) c"
    by (auto simp: list_all_iff split: option.splits)
  have wc: "well_formed h (Some a) c" using assms(3) wd wf by blast
  from well_formed_root[OF wc] obtain cn where cn: "lookup h (root_of c) = Some cn"
    "oNParent cn = Some a" by blast
  have live: "\<forall>x\<in>set (map root_of ds) \<union> set (map root_of fs). lookup h x \<noteq> None"
  proof
    fix x assume "x \<in> set (map root_of ds) \<union> set (map root_of fs)"
    then obtain c' where "c' \<in> set ds \<union> set fs" "x = root_of c'" by auto
    with wd wf well_formed_root[of h "Some a" c'] show "lookup h x \<noteq> None" by auto
  qed
  have a_c: "a \<notin> set (addrs c)" using assms(2,3) by auto
  have dc: "distinct (addrs c)"
    using assms(2,3) distinct_concat_member[of addrs ds c] distinct_concat_member[of addrs fs c]
    by auto
  have "\<exists>h1. detach h (root_of c) = Inr h1 \<and> (\<forall>x. x \<noteq> a \<longrightarrow> lookup h1 x = lookup h x)"
  proof (cases "c \<in> set ds")
    case True
    then obtain i where i: "i < length ds" "ds ! i = c" by (auto simp: in_set_conv_nth)
    then have i': "i < length (map root_of ds)" "map root_of ds ! i = root_of c" by simp_all
    have ncl: "\<forall>y\<in>set (map root_of fs). path_less h (root_of c) y \<or> path_less h y (root_of c)"
      using cl True by (auto simp: list_all_iff)
    from detach_dir_child[OF _ cn(2) an dr fr i'(1) live sd] cn(1) ncl i'(2)
    show ?thesis by (auto simp: lookup_update)
  next
    case False
    with assms(3) have m: "c \<in> set fs" by simp
    then obtain i where i: "i < length fs" "fs ! i = c" by (auto simp: in_set_conv_nth)
    then have i': "i < length (map root_of fs)" "map root_of fs ! i = root_of c" by simp_all
    have ncl: "\<forall>x\<in>set (map root_of ds). path_less h (root_of c) x \<or> path_less h x (root_of c)"
      using cl m by (auto simp: list_all_iff)
    from detach_file_child[OF _ cn(2) an dr fr i'(1) live sf] cn(1) ncl i'(2)
    show ?thesis by (auto simp: lookup_update)
  qed
  then obtain h1 where h1: "detach h (root_of c) = Inr h1"
    "\<forall>x. x \<noteq> a \<longrightarrow> lookup h1 x = lookup h x" by blast
  have "\<forall>x\<in>set (addrs c). lookup h1 x = lookup h x" using h1(2) a_c by auto
  from well_formed_frame[OF this] wc have wc1: "well_formed h1 (Some a) c" by simp
  from Node_free_tree[OF h1(1) wc1 dc] obtain n where
    "Node_free n h (root_of c) = Inr (clear (addrs c) h1, count_nodes c)" by blast
  with h1 show ?thesis using Node_free_mono by blast
qed

text \<open>
  The scenario of the spec (\<^verbatim>\<open>root\<close>, \<^verbatim>\<open>root/dir1\<close>, \<^verbatim>\<open>root/dir1/file1\<close>) is such a tree:
  freeing the root gives 3, by the theorem and by running the model.
\<close>

lemma well_formed_heap_spec: "well_formed heap_spec None tree_spec \<and> distinct (addrs tree_spec)"
  by (simp add: example_defs lookup_def children_sorted_def)

lemma Node_free_scenario_count:
  "\<exists>n. \<forall>m\<ge>n. Node_free m heap_spec 0 = Inr ([None, None, None], 3)"
proof -
  have "clear (addrs tree_spec) heap_spec = [None, None, None]"
    by (simp add: tree_spec_def heap_spec_def clear_def)
  moreover have "count_nodes tree_spec = 3" "root_of tree_spec = 0"
    by (simp_all add: tree_spec_def)
  ultimately show ?thesis
    using Node_free_root_count[of heap_spec tree_spec] well_formed_heap_spec by simp
qed

lemma Node_free_heap_spec: "Node_free 6 heap_spec 0 = Inr ([None, None, None], 3)"
  by (simp add: example_defs operation_defs bsearch_loop.simps eval_nat_numeral)

subsection \<open>A tree with unsorted directory children\<close>

lemma Node_free_heap_rabc:
  "Node_free (Suc (Suc (Suc (Suc (Suc k))))) heap_rabc 0 = Inl InvalidAccess"
  by (simp add: example_defs operation_defs bsearch_loop.simps)

text \<open>
  C3, evaluated: the root \<^verbatim>\<open>r\<close> with the directories \<^verbatim>\<open>r/a\<close>, \<^verbatim>\<open>r/b\<close>, \<^verbatim>\<open>r/c\<close>, created in
  this order by \<^verbatim>\<open>Node_new\<close>, is a tree of 4 nodes whose directory children are stored as
  \<^verbatim>\<open>r/c\<close>, \<^verbatim>\<open>r/b\<close>, \<^verbatim>\<open>r/a\<close>. \<^verbatim>\<open>Node_free\<close> of the root frees \<^verbatim>\<open>r/c\<close> without removing it from
  the root's array (the binary search probes \<^verbatim>\<open>r/b\<close>, then \<^verbatim>\<open>r/a\<close>, and misses it), and
  the next iteration of the loop reads the freed node: whatever the bound on the calls,
  from 5 on, the call does not return a count.
\<close>

theorem Node_free_unsorted_faults:
  "Node_new al_ok True [''r'', ''c''] (Some 0) None 0 heap_rab = Inr (SUCCESS, Some 3, heap_rabc)
   \<and> map_option oDDirChildren (lookup heap_rabc 0) = Some (Some [3, 2, 1])
   \<and> Node_free (5 + k) heap_rabc 0 = Inl InvalidAccess"
proof -
  have fuel: "5 + k = Suc (Suc (Suc (Suc (Suc k))))" by simp
  have arr: "map_option oDDirChildren (lookup heap_rabc 0) = Some (Some [3, 2, 1])"
    by (simp add: heap_rabc_def dir_node_def lookup_def)
  show ?thesis
    unfolding fuel using Node_free_heap_rabc[of k] build_heap_rabc arr by blast
qed

end
